theory Spec2Isabelle
  imports Main "HOL-Library.Word" "HOL-Library.Signed_Division"
begin

section \<open>dcos-log: the program\<close>

text \<open>
  Go strings and byte slices are sequences of bytes; they are modelled as \<open>string\<close>
  (a list of \<open>char\<close>, each an 8-bit byte). Go's \<open>int\<close> is modelled as the unbounded
  \<open>int\<close>: no quantity of the program comes near \<open>2 ^ 63\<close> for a file that exists.
\<close>

subsection \<open>journal/reader/formatters.go\<close>

text \<open>
  \<open>sdjournal.JournalEntry\<close>, the record the formatter reads: a field mapping, a cursor
  token and two unsigned 64-bit timestamps.
\<close>

record JournalEntry =
  Fields :: "string \<rightharpoonup> string"
  Cursor :: string
  RealtimeTimestamp :: "64 word"
  MonotonicTimestamp :: "64 word"

text \<open>\<open>strings.Join\<close>: the elements with the separator between neighbours.\<close>

fun Join :: "string list \<Rightarrow> string \<Rightarrow> string" where
  "Join [] sep = []"
| "Join [x] sep = x"
| "Join (x # y # ys) sep = x @ sep @ Join (y # ys) sep"

text \<open>\<open>logTextEntry\<close> is a slice of strings with three methods.\<close>

type_synonym logTextEntry = "string list"

definition Add :: "logTextEntry \<Rightarrow> string \<Rightarrow> logTextEntry" where
  "Add l s = l @ [s]"

definition String :: "logTextEntry \<Rightarrow> string" where
  "String l = Join l '' '' @ [CHR 0x0A]"

definition ToBytes :: "logTextEntry \<Rightarrow> string" where
  "ToBytes l = String l"

text \<open>
  \<open>FormatText.FormatEntry\<close>. The second component is the returned \<open>error\<close>, \<open>None\<close>
  for \<open>nil\<close>; the named result \<open>entryBytes\<close> starts as the nil slice, which is the empty
  byte sequence. \<open>int64(entry.RealtimeTimestamp) / 1000000\<close> reinterprets the unsigned word
  as signed (\<open>sint\<close>) and divides truncating towards zero (\<open>sdiv\<close>).
  \<open>time.Unix(sec, 0).Format(time.ANSIC)\<close> belongs to the standard library and depends on
  the local time zone; it is the parameter \<open>ansic\<close>.
\<close>

definition FormatEntry :: "(int \<Rightarrow> string) \<Rightarrow> JournalEntry \<Rightarrow> string \<times> string option" where
  "FormatEntry ansic entry =
     (case Fields entry ''MESSAGE'' of
        None \<Rightarrow> ([], None)
      | Some message \<Rightarrow>
          (let l0 = [];
               t = sint (RealtimeTimestamp entry) sdiv 1000000;
               l1 = Add l0 (ansic t);
               l2 = (case Fields entry ''_HOSTNAME'' of Some hostname \<Rightarrow> Add l1 hostname | None \<Rightarrow> l1);
               l3 = (case Fields entry ''SYSLOG_IDENTIFIER'' of Some syslogID \<Rightarrow> Add l2 syslogID | None \<Rightarrow> l2);
               l4 = (case Fields entry ''_PID'' of Some pid \<Rightarrow> Add l3 (''['' @ pid @ '']'') | None \<Rightarrow> l3);
               l5 = Add l4 message
           in (ToBytes l5, None)))"

subsection \<open>api/v2/discovery.go\<close>

text \<open>
  \<open>nodeutil.CanonicalTaskID\<close> as \<open>redirectURL\<close> reads it.
\<close>

record CanonicalTaskID =
  AgentID :: string
  FrameworkID :: string
  ExecutorID :: string
  ContainerIDs :: "string list"
  ID :: string

definition prefix_const :: string where
  "prefix_const = ''/system/v1/agent''"

datatype panic = IndexOutOfRange

text \<open>
  \<open>redirectURL\<close>. The index expression \<open>id.ContainerIDs[len(id.ContainerIDs)-1]\<close> panics
  on the empty slice (index \<open>-1\<close>); the panic is the \<open>Inl\<close> branch. A normal return is the
  pair of the URL and the error, which is always \<open>nil\<close>.
\<close>

definition redirectURL :: "CanonicalTaskID \<Rightarrow> string \<Rightarrow> panic + (string \<times> string option)" where
  "redirectURL tid file =
     (let isPod = (ExecutorID tid \<noteq> []);
          executorID = (if \<not> isPod then ID tid else ExecutorID tid)
      in if ContainerIDs tid = [] then Inl IndexOutOfRange
         else
           (let taskID = ContainerIDs tid ! (length (ContainerIDs tid) - 1);
                taskLogURL = prefix_const @ ''/'' @ AgentID tid @ ''/logs/v2/task/frameworks/''
                    @ FrameworkID tid @ ''/executors/'' @ executorID @ ''/runs/'' @ taskID @ ''/''
            in Inr (if isPod then taskLogURL @ ''/tasks/'' @ ID tid @ ''/'' @ file
                    else taskLogURL @ file, None)))"

subsection \<open>mesos/files/reader/read.go: data\<close>

definition chunkSize :: int where
  "chunkSize = 65536"

definition nl :: char where
  "nl = CHR 0x0A"

text \<open>The decoded JSON body of the remote read endpoint (\<open>response\<close>).\<close>

record response =
  Data :: string
  RespOffset :: int

text \<open>
  The errors the reader returns: its own \<open>ErrEmptyParam\<close>, \<open>io.EOF\<close>, the three ways
  \<open>do\<close> fails (transport, status, decoding), the error of the option that rejects a
  line limit \<open>\<le> 0\<close>, and a run-time panic.
\<close>

datatype error =
  ErrEmptyParam
| EOF
| TransportError
| BadStatus int
| DecodeError
| ErrNonPositiveLines
| Panic panic

text \<open>
  The struct \<open>Line\<close> and the function types \<open>Formatter\<close> and \<open>Option\<close> are declared in
  files of the package that are not among the sources. Their shape is the one \<open>read.go\<close>
  uses: the struct literal in \<open>read\<close>, the call \<open>rm.formatFn(*line)\<close> whose result is a
  string, and the call \<open>opt(rm)\<close> whose result is an error.
\<close>

record Line =
  Message :: string
  Offset :: int
  Size :: int

datatype ReadDirection = TopToBottom | BottomToTop

text \<open>
  A GET request of the reader, by its query parameters; \<open>fileLen\<close> sends no length. The
  HTTP client together with the remote agent is a function from requests to either a
  transport error or a status code and body; the body is \<open>None\<close> when it does not decode
  into a \<open>response\<close>.
\<close>

record request =
  path_param :: string
  offset_param :: int
  length_param :: "int option"

record http_response =
  StatusCode :: int
  Body :: "response option"

type_synonym client = "request \<Rightarrow> error + http_response"

text \<open>
  \<open>ReadManager\<close>. The field \<open>n\<close> is \<open>rm_n\<close> here. The HTTP client is passed to each
  function instead of being stored; \<open>readEndpoint\<close> and \<open>header\<close> only decorate the
  request, and \<open>size\<close> is never read or written: the three are left out.
\<close>

record ReadManager =
  sandboxPath :: string
  readDirection :: ReadDirection
  rm_n :: int
  File :: string
  offset :: int
  lines :: "Line list"
  readLines :: int
  stream :: bool
  formatFn :: "Line \<Rightarrow> string"

type_synonym Option = "ReadManager \<Rightarrow> error + ReadManager"

subsection \<open>Go strings: runes, \<open>strings.Split\<close>, \<open>strings.Reader\<close>\<close>

text \<open>
  A Go string holds arbitrary bytes. The conversion \<open>[]rune(s)\<close> decodes it as UTF-8:
  a well-formed sequence of one to four bytes gives its code point, and any byte that
  does not start one gives \<open>U+FFFD\<close> and is skipped alone. The masks and shifts of the
  decoder are written as \<open>mod\<close> and multiplication (the bit fields do not overlap).
  Code points are natural numbers: decoding yields nothing outside \<open>0 .. 0x10FFFF\<close>.
\<close>

definition RuneError :: nat where
  "RuneError = 0xFFFD"

definition cont :: "char \<Rightarrow> bool" where
  "cont c = (0x80 \<le> (of_char c :: nat) \<and> (of_char c :: nat) \<le> 0xBF)"

text \<open>The accepted range of the second byte, by the first byte.\<close>

definition accept_lo :: "nat \<Rightarrow> nat" where
  "accept_lo b0 = (if b0 = 0xE0 then 0xA0 else if b0 = 0xF0 then 0x90 else 0x80)"

definition accept_hi :: "nat \<Rightarrow> nat" where
  "accept_hi b0 = (if b0 = 0xED then 0x9F else if b0 = 0xF4 then 0x8F else 0xBF)"

definition second_ok :: "nat \<Rightarrow> char \<Rightarrow> bool" where
  "second_ok b0 c = (accept_lo b0 \<le> (of_char c :: nat) \<and> (of_char c :: nat) \<le> accept_hi b0)"

fun DecodeRuneInString :: "string \<Rightarrow> nat \<times> nat" where
  "DecodeRuneInString [] = (RuneError, 0)"
| "DecodeRuneInString (c0 # cs) =
     (let b0 = (of_char c0 :: nat) in
      if b0 < 0x80 then (b0, 1)
      else if 0xC2 \<le> b0 \<and> b0 \<le> 0xDF then
        (case cs of
           c1 # _ \<Rightarrow>
             if second_ok b0 c1 then ((b0 mod 32) * 64 + of_char c1 mod 64, 2)
             else (RuneError, 1)
         | _ \<Rightarrow> (RuneError, 1))
      else if 0xE0 \<le> b0 \<and> b0 \<le> 0xEF then
        (case cs of
           c1 # c2 # _ \<Rightarrow>
             if second_ok b0 c1 \<and> cont c2
             then ((b0 mod 16) * 4096 + (of_char c1 mod 64) * 64 + of_char c2 mod 64, 3)
             else (RuneError, 1)
         | _ \<Rightarrow> (RuneError, 1))
      else if 0xF0 \<le> b0 \<and> b0 \<le> 0xF4 then
        (case cs of
           c1 # c2 # c3 # _ \<Rightarrow>
             if second_ok b0 c1 \<and> cont c2 \<and> cont c3
             then ((b0 mod 8) * 262144 + (of_char c1 mod 64) * 4096
                     + (of_char c2 mod 64) * 64 + of_char c3 mod 64, 4)
             else (RuneError, 1)
         | _ \<Rightarrow> (RuneError, 1))
      else (RuneError, 1))"

lemma DecodeRuneInString_width: "s \<noteq> [] \<Longrightarrow> DecodeRuneInString s = (r, w) \<Longrightarrow> 0 < w"
  by (cases s) (auto simp: Let_def split: if_splits list.splits)

lemma DecodeRuneInString_drop:
  "s \<noteq> [] \<Longrightarrow> (r, w) = DecodeRuneInString s \<Longrightarrow> length (drop w s) < length s"
  using DecodeRuneInString_width [of s r w] by (cases s) simp_all

text \<open>\<open>[]rune(s)\<close>.\<close>

function runes_of :: "string \<Rightarrow> nat list" where
  "runes_of s =
     (if s = [] then []
      else (case DecodeRuneInString s of (r, w) \<Rightarrow> r # runes_of (drop w s)))"
  by pat_completeness auto
termination
proof (relation "measure length")
  fix s :: string and r w
  assume "s \<noteq> []" and "(r, w) = DecodeRuneInString s"
  then have "0 < w" and "0 < length s"
    using DecodeRuneInString_width [of s r w] by simp_all
  then show "(drop w s, s) \<in> measure length" by simp
qed simp

declare runes_of.simps [simp del]

text \<open>
  The encoding of one code point as \<open>string(runes)\<close> writes it: surrogates and values
  above \<open>0x10FFFF\<close> are written as \<open>U+FFFD\<close>, three bytes.
\<close>

definition EncodeRune :: "nat \<Rightarrow> string" where
  "EncodeRune r =
     (if r \<le> 0x7F then [char_of r]
      else if r \<le> 0x7FF then [char_of (0xC0 + r div 64), char_of (0x80 + r mod 64)]
      else if r > 0x10FFFF \<or> (0xD800 \<le> r \<and> r \<le> 0xDFFF) then [CHR 0xEF, CHR 0xBF, CHR 0xBD]
      else if r \<le> 0xFFFF then
        [char_of (0xE0 + r div 4096), char_of (0x80 + (r div 64) mod 64), char_of (0x80 + r mod 64)]
      else
        [char_of (0xF0 + r div 262144), char_of (0x80 + (r div 4096) mod 64),
         char_of (0x80 + (r div 64) mod 64), char_of (0x80 + r mod 64)])"

definition string_of_runes :: "nat list \<Rightarrow> string" where
  "string_of_runes rs = concat (map EncodeRune rs)"

text \<open>
  \<open>reverse\<close>: the two-index swap loop over the rune slice, then the conversion back to
  a string. Inside the loop \<open>0 \<le> i < j \<le> len(runes) - 1\<close>, so both indices are in range.
\<close>

function reverse_loop :: "nat list \<Rightarrow> int \<Rightarrow> int \<Rightarrow> nat list" where
  "reverse_loop runes i j =
     (if i < j
      then reverse_loop (runes[nat i := runes ! nat j, nat j := runes ! nat i]) (i + 1) (j - 1)
      else runes)"
  by pat_completeness auto
termination
  by (relation "measure (\<lambda>(runes, i, j). nat (j - i))") auto

declare reverse_loop.simps [simp del]

definition reverse :: "string \<Rightarrow> string" where
  "reverse s = (let runes = runes_of s in string_of_runes (reverse_loop runes 0 (int (length runes) - 1)))"

text \<open>
  \<open>strings.Split(s, sep)\<close> for a one-byte separator: the pieces between the separators,
  one more than there are separators; the empty string gives one empty piece.
\<close>

fun Split :: "string \<Rightarrow> char \<Rightarrow> string list" where
  "Split [] sep = [[]]"
| "Split (c # cs) sep =
     (if c = sep then [] # Split cs sep
      else (c # hd (Split cs sep)) # tl (Split cs sep))"

text \<open>
  \<open>strings.NewReader(s).Read(b)\<close> on a fresh reader, for a buffer of \<open>blen\<close> bytes: the
  bytes copied into \<open>b\<close> (their number is the returned count), or \<open>io.EOF\<close> for the empty
  string.
\<close>

definition Reader_Read :: "string \<Rightarrow> nat \<Rightarrow> error + string" where
  "Reader_Read s blen = (if length s = 0 then Inl EOF else Inr (take blen s))"

subsection \<open>mesos/files/reader/read.go: functions\<close>

fun notEmpty_loop :: "string list \<Rightarrow> error option" where
  "notEmpty_loop [] = None"
| "notEmpty_loop (arg # args) = (if arg = [] then Some ErrEmptyParam else notEmpty_loop args)"

definition notEmpty :: "string list \<Rightarrow> error option" where
  "notEmpty args = (if length args = 0 then Some ErrEmptyParam else notEmpty_loop args)"

text \<open>
  \<open>do\<close>: a transport error, then a status other than 200, then a body that does not
  decode. Building the request (\<open>http.NewRequest\<close>) does not fail for the URLs the reader
  builds, and logging has no effect on the result; neither is modelled.
\<close>

definition do :: "client \<Rightarrow> request \<Rightarrow> error + response" where
  "do c req =
     (case c req of
        Inl err \<Rightarrow> Inl err
      | Inr resp \<Rightarrow>
          if StatusCode resp \<noteq> 200 then Inl (BadStatus (StatusCode resp))
          else (case Body resp of None \<Rightarrow> Inl DecodeError | Some data \<Rightarrow> Inr data))"

definition fileLen_request :: "ReadManager \<Rightarrow> request" where
  "fileLen_request rm = \<lparr>path_param = sandboxPath rm @ File rm, offset_param = - 1, length_param = None\<rparr>"

definition fileLen :: "client \<Rightarrow> ReadManager \<Rightarrow> error + int" where
  "fileLen c rm =
     (case do c (fileLen_request rm) of
        Inl err \<Rightarrow> Inl err
      | Inr resp \<Rightarrow> Inr (RespOffset resp))"

definition read_request :: "ReadManager \<Rightarrow> int \<Rightarrow> int \<Rightarrow> request" where
  "read_request rm off len = \<lparr>path_param = sandboxPath rm @ File rm, offset_param = off, length_param = Some len\<rparr>"

text \<open>The loop of \<open>read\<close> that attaches offsets; \<open>acc\<close> is \<open>accumulator\<close>.\<close>

fun linesWithOffset :: "string list \<Rightarrow> int \<Rightarrow> int \<Rightarrow> Line list" where
  "linesWithOffset [] off acc = []"
| "linesWithOffset (l # ls) off acc =
     \<lparr>Message = l, Offset = off + acc, Size = int (length l)\<rparr>
       # linesWithOffset ls off (acc + int (length l) + 1)"

text \<open>
  The part of \<open>read\<close> after the fetch: transform, split, hold back the last piece when
  there is more than one.
\<close>

definition read_split :: "string \<Rightarrow> int \<Rightarrow> (string \<Rightarrow> string) option \<Rightarrow> Line list \<times> int" where
  "read_split data off modifier =
     (let m = (case modifier of None \<Rightarrow> (\<lambda>s. s) | Some f \<Rightarrow> f);
          pieces = Split (m data) nl;
          delta = (if length pieces > 1 then int (length (pieces ! (length pieces - 1))) else 0);
          pieces' = (if length pieces > 1 then take (length pieces - 1) pieces else pieces)
      in (linesWithOffset pieces' off 0, delta))"

definition read :: "client \<Rightarrow> ReadManager \<Rightarrow> int \<Rightarrow> int \<Rightarrow> (string \<Rightarrow> string) option
    \<Rightarrow> error + (Line list \<times> int)" where
  "read c rm off len modifier =
     (case do c (read_request rm off len) of
        Inl err \<Rightarrow> Inl err
      | Inr resp \<Rightarrow> Inr (read_split (Data resp) off modifier))"

definition Prepand :: "ReadManager \<Rightarrow> Line \<Rightarrow> ReadManager" where
  "Prepand rm s = rm\<lparr>lines := [s] @ lines rm\<rparr>"

definition Pop :: "ReadManager \<Rightarrow> Line option \<times> ReadManager" where
  "Pop rm =
     (let k = length (lines rm) in
      if k = 0 then (None, rm)
      else (Some (lines rm ! (k - 1)), rm\<lparr>lines := take (k - 1) (lines rm)\<rparr>))"

text \<open>The \<open>range\<close> loop of \<open>Read\<close> over the fetched lines; the integer is \<open>linesLen\<close>.\<close>

fun prepend_loop :: "Line list \<Rightarrow> ReadManager \<Rightarrow> int \<Rightarrow> ReadManager \<times> int" where
  "prepend_loop [] rm linesLen = (rm, linesLen)"
| "prepend_loop (line # rest) rm linesLen =
     prepend_loop rest (Prepand rm line) (linesLen + (int (length (Message line)) + 1))"

text \<open>
  The block of \<open>Read\<close> guarded by \<open>len(rm.lines) == 0\<close>. Every function that may fetch
  returns, last, the list of requests it sent, in order.
\<close>

definition refill :: "client \<Rightarrow> ReadManager \<Rightarrow> (error + ReadManager) \<times> request list" where
  "refill c rm =
     (if length (lines rm) = 0 then
        (case read c rm (offset rm) chunkSize None of
           Inl err \<Rightarrow> (Inl err, [read_request rm (offset rm) chunkSize])
         | Inr (ls, delta) \<Rightarrow>
             (Inr (if length ls > 1 then
                     (case prepend_loop ls rm 0 of
                        (rm1, linesLen) \<Rightarrow>
                          if linesLen < chunkSize
                          then rm1\<lparr>offset := offset rm1 + linesLen - 1\<rparr>
                          else rm1\<lparr>offset := (offset rm1 + chunkSize) - delta - 1\<rparr>)
                   else rm),
              [read_request rm (offset rm) chunkSize]))
      else (Inr rm, []))"

text \<open>
  \<open>Read\<close>, for a buffer \<open>b\<close> of \<open>blen\<close> bytes: the result (the bytes written into \<open>b\<close>, or
  the error), the reader afterwards, and the requests sent.
\<close>

definition Read :: "client \<Rightarrow> ReadManager \<Rightarrow> nat \<Rightarrow> (error + string) \<times> ReadManager \<times> request list" where
  "Read c rm blen =
     (if \<not> stream rm \<and> readLines rm = rm_n rm then (Inl EOF, rm, [])
      else
        (case refill c rm of
           (Inl err, reqs) \<Rightarrow> (Inl err, rm, reqs)
         | (Inr rm1, reqs) \<Rightarrow>
             (case Pop rm1 of
                (None, rm2) \<Rightarrow> (Inl EOF, rm2, reqs)
              | (Some line, rm2) \<Rightarrow>
                  if Message line = [] then (Inl EOF, rm2, reqs)
                  else (Reader_Read (formatFn rm2 line) blen,
                        rm2\<lparr>readLines := readLines rm2 + 1\<rparr>, reqs))))"

text \<open>
  The inner loop of the backward search, \<open>for i := len(lines) - diff; i < len(lines); i++\<close>,
  on the offset. A negative index would panic.
\<close>

function offset_loop :: "Line list \<Rightarrow> int \<Rightarrow> int \<Rightarrow> error + int" where
  "offset_loop ls i off =
     (if i < int (length ls) then
        (if i < 0 then Inl (Panic IndexOutOfRange)
         else offset_loop ls (i + 1) (off - (int (length (Message (ls ! nat i))) + 1)))
      else Inr off)"
  by pat_completeness auto
termination
  by (relation "measure (\<lambda>(ls, i, off). nat (int (length ls) - i))") auto

declare offset_loop.simps [simp del]

lemma length_Split_pos: "0 < length (Split s sep)"
  by (induction s) auto

lemma length_linesWithOffset: "length (linesWithOffset ps off acc) = length ps"
  by (induction ps arbitrary: acc) auto

lemma read_split_nonempty: "0 < length (fst (read_split d off modifier))"
proof -
  have "0 < length (Split s nl)" for s
    by (rule length_Split_pos)
  moreover have "1 < length ps \<Longrightarrow> 0 < length (take (length ps - 1) ps)" for ps :: "string list"
    by simp
  ultimately show ?thesis
    by (simp add: read_split_def Let_def length_linesWithOffset)
qed

lemma read_lines_nonempty:
  assumes "read c rm off len modifier = Inr (ls, delta)"
  shows "0 < length ls"
proof (cases "do c (read_request rm off len)")
  case (Inl err)
  with assms show ?thesis by (simp add: read_def)
next
  case (Inr resp)
  with assms have "read_split (Data resp) off modifier = (ls, delta)"
    by (simp add: read_def)
  then have "ls = fst (read_split (Data resp) off modifier)"
    by simp
  then show ?thesis
    using read_split_nonempty by simp
qed

text \<open>
  The outer loop of the backward search in \<open>NewLineReader\<close>: \<open>rm\<close> carries \<open>rm.offset\<close>,
  \<open>foundLines\<close> and \<open>off\<close> are the two local variables. Each round that does not stop
  finds at least one line, so the loop ends.
\<close>

function locate_loop :: "client \<Rightarrow> ReadManager \<Rightarrow> int \<Rightarrow> int \<Rightarrow> (error + ReadManager) \<times> request list" where
  "locate_loop c rm foundLines off =
     (if off < 1 then (Inr (rm\<lparr>offset := 0\<rparr>), [])
      else
        (case read c rm off chunkSize (Some reverse) of
           Inl err \<Rightarrow> (Inl err, [read_request rm off chunkSize])
         | Inr (ls, delta) \<Rightarrow>
             if foundLines + int (length ls) \<ge> rm_n rm then
               (let diff = rm_n rm - foundLines in
                (case offset_loop ls (int (length ls) - diff) (offset rm) of
                   Inl err \<Rightarrow> Inl err
                 | Inr off' \<Rightarrow> Inr (rm\<lparr>offset := off'\<rparr>)),
                [read_request rm off chunkSize])
             else
               (let foundLines' = foundLines + int (length ls);
                    off' = off - (chunkSize - delta)
                in (case locate_loop c (rm\<lparr>offset := off'\<rparr>) foundLines' off' of
                      (res, reqs) \<Rightarrow> (res, read_request rm off chunkSize # reqs)))))"
  by pat_completeness auto
termination
  apply (relation "measure (\<lambda>(c, rm, foundLines, off). nat (rm_n rm - foundLines))")
   apply simp
  apply (auto dest: read_lines_nonempty)
  done

declare locate_loop.simps [simp del]

text \<open>The reader as the struct literal of \<open>NewLineReader\<close> builds it, other fields zero.\<close>

definition new_rm :: "string \<Rightarrow> string \<Rightarrow> string \<Rightarrow> string \<Rightarrow> string \<Rightarrow> string
    \<Rightarrow> (Line \<Rightarrow> string) \<Rightarrow> ReadManager" where
  "new_rm agentID frameworkID executorID containerID taskPath file format =
     (let sandboxPath0 = ''/var/lib/mesos/slave/slaves/'' @ agentID @ ''/frameworks/'' @ frameworkID
            @ ''/executors/'' @ executorID @ ''/runs/'' @ containerID @ ''/'';
          sandboxPath1 = (if taskPath \<noteq> [] then sandboxPath0 @ ''tasks/'' @ taskPath @ ''/''
                          else sandboxPath0)
      in \<lparr>sandboxPath = sandboxPath1, readDirection = TopToBottom, rm_n = 0, File = file,
          offset = 0, lines = [], readLines = 0, stream = False, formatFn = format\<rparr>)"

text \<open>The loop over \<open>opts\<close>; a nil option is \<open>None\<close> and is skipped.\<close>

fun apply_opts :: "Option option list \<Rightarrow> ReadManager \<Rightarrow> error + ReadManager" where
  "apply_opts [] rm = Inr rm"
| "apply_opts (None # opts) rm = apply_opts opts rm"
| "apply_opts (Some opt # opts) rm =
     (case opt rm of Inl err \<Rightarrow> Inl err | Inr rm' \<Rightarrow> apply_opts opts rm')"

text \<open>The backward search, the block guarded by \<open>rm.readDirection == BottomToTop\<close>.\<close>

definition locate :: "client \<Rightarrow> ReadManager \<Rightarrow> (error + ReadManager) \<times> request list" where
  "locate c rm =
     (if readDirection rm = BottomToTop then
        (case fileLen c rm of
           Inl err \<Rightarrow> (Inl err, [fileLen_request rm])
         | Inr sz \<Rightarrow>
             (case locate_loop c (rm\<lparr>offset := sz\<rparr>) 0 (sz - chunkSize) of
                (res, reqs) \<Rightarrow> (res, fileLen_request rm # reqs)))
      else (Inr rm, []))"

definition NewLineReader :: "client \<Rightarrow> string \<Rightarrow> string \<Rightarrow> string \<Rightarrow> string \<Rightarrow> string \<Rightarrow> string
    \<Rightarrow> (Line \<Rightarrow> string) \<Rightarrow> Option option list \<Rightarrow> (error + ReadManager) \<times> request list" where
  "NewLineReader c agentID frameworkID executorID containerID taskPath file format opts =
     (case notEmpty [agentID, frameworkID, executorID, containerID] of
        Some err \<Rightarrow> (Inl err, [])
      | None \<Rightarrow>
          (case apply_opts opts (new_rm agentID frameworkID executorID containerID taskPath file format) of
             Inl err \<Rightarrow> (Inl err, [])
           | Inr rm \<Rightarrow> locate c rm))"

subsection \<open>Collaborators outside the sources\<close>

text \<open>
  Modelled from the spec: the option constructors (the functions of type \<open>Option\<close>) are
  not among the sources. The spec's configuration has a direction, a line limit and a
  stream flag, and makes a line limit \<open>\<le> 0\<close> a construction error.
\<close>

definition OptLines :: "int \<Rightarrow> Option" where
  "OptLines k rm = (if k \<le> 0 then Inl ErrNonPositiveLines else Inr (rm\<lparr>rm_n := k\<rparr>))"

definition OptReadDirection :: "ReadDirection \<Rightarrow> Option" where
  "OptReadDirection d rm = Inr (rm\<lparr>readDirection := d\<rparr>)"

definition OptStream :: "bool \<Rightarrow> Option" where
  "OptStream b rm = Inr (rm\<lparr>stream := b\<rparr>)"

text \<open>
  Modelled from the spec: a configuration as a caller states it, one item per option,
  and the option list it stands for.
\<close>

datatype config = Lines int | Direction ReadDirection | Stream bool

fun option_of :: "config \<Rightarrow> Option" where
  "option_of (Lines k) = OptLines k"
| "option_of (Direction d) = OptReadDirection d"
| "option_of (Stream b) = OptStream b"

definition options_of :: "config list \<Rightarrow> Option option list" where
  "options_of cfg = map (\<lambda>x. Some (option_of x)) cfg"

text \<open>
  Modelled from the spec: the remote read endpoint serving one file with the given
  content. A request with offset \<open>-1\<close> is the size probe; any other request returns the
  bytes of the file in \<open>[offset, offset + length)\<close> and echoes the offset. For an
  offset below \<open>-1\<close>, which the spec leaves open, the model answers with status 400.
\<close>

definition remote_file :: "string \<Rightarrow> client" where
  "remote_file content req =
     (if offset_param req = - 1 then
        Inr \<lparr>StatusCode = 200, Body = Some \<lparr>Data = [], RespOffset = int (length content)\<rparr>\<rparr>
      else if offset_param req < 0 then Inr \<lparr>StatusCode = 400, Body = None\<rparr>
      else
        Inr \<lparr>StatusCode = 200,
             Body = Some \<lparr>Data = (case length_param req of
                                     None \<Rightarrow> drop (nat (offset_param req)) content
                                   | Some len \<Rightarrow> take (nat len) (drop (nat (offset_param req)) content)),
                          RespOffset = offset_param req\<rparr>\<rparr>)"

subsection \<open>Consumers, and notions the properties are stated with\<close>

text \<open>A file given by its lines, each followed by one terminator.\<close>

definition file_of_lines :: "string list \<Rightarrow> string" where
  "file_of_lines ls = concat (map (\<lambda>l. l @ [nl]) ls)"

text \<open>The byte offset at which line number \<open>i\<close> (counted from 1) of such a file starts.\<close>

definition line_start :: "string list \<Rightarrow> nat \<Rightarrow> int" where
  "line_start ls i = int (length (file_of_lines (take (i - 1) ls)))"

text \<open>
  Putting a split back together: each line's message followed by one terminator, then
  the last \<open>delta\<close> bytes of the chunk (the fragment held back).
\<close>

definition rejoin :: "Line list \<times> int \<Rightarrow> string \<Rightarrow> string" where
  "rejoin r chunk = concat (map (\<lambda>l. Message l @ [nl]) (fst r)) @ drop (length chunk - nat (snd r)) chunk"

text \<open>A consumer that calls \<open>Read\<close> once per buffer size of the list, in order.\<close>

fun pulls :: "client \<Rightarrow> ReadManager \<Rightarrow> nat list \<Rightarrow> (error + string) list \<times> ReadManager \<times> request list" where
  "pulls c rm [] = ([], rm, [])"
| "pulls c rm (blen # blens) =
     (case Read c rm blen of
        (res, rm1, reqs1) \<Rightarrow>
          (case pulls c rm1 blens of
             (ress, rm2, reqs2) \<Rightarrow> (res # ress, rm2, reqs1 @ reqs2)))"

text \<open>
  A consumer that calls \<open>Read\<close> with a buffer of \<open>blen\<close> bytes until it returns an error
  (\<open>io.EOF\<close> or another), as \<open>io.Copy\<close> does: the blocks read and the error that ended
  the loop, or \<open>None\<close> when the fuel runs out before that.
\<close>

fun drain :: "nat \<Rightarrow> client \<Rightarrow> ReadManager \<Rightarrow> nat \<Rightarrow> (string list \<times> error) option" where
  "drain 0 c rm blen = None"
| "drain (Suc fuel) c rm blen =
     (case Read c rm blen of
        (Inl err, rm1, reqs) \<Rightarrow> Some ([], err)
      | (Inr s, rm1, reqs) \<Rightarrow>
          (case drain fuel c rm1 blen of
             None \<Rightarrow> None
           | Some (ss, err) \<Rightarrow> Some (s # ss, err)))"

text \<open>
  Well-formed UTF-8 (what \<open>utf8.ValidString\<close> decides): every decoding step either
  reads an ASCII byte or a complete multi-byte sequence, never the fallback for an
  invalid byte.
\<close>

function ValidString :: "string \<Rightarrow> bool" where
  "ValidString s =
     (if s = [] then True
      else (case DecodeRuneInString s of
              (r, w) \<Rightarrow> ((of_char (hd s) :: nat) < 0x80 \<or> 1 < w) \<and> ValidString (drop w s)))"
  by pat_completeness auto
termination
  apply (relation "measure length")
   apply simp
  apply (auto dest: DecodeRuneInString_drop)
  done

declare ValidString.simps [simp del]

section \<open>Lemmas\<close>

subsection \<open>Splitting a chunk\<close>

lemma Split_not_Nil: "Split s sep \<noteq> []"
  by (induction s) auto

lemma Split_rejoin:
  "concat (map (\<lambda>p. p @ [sep]) (butlast (Split s sep))) @ last (Split s sep) = s"
proof (induction s)
  case Nil
  show ?case by simp
next
  case (Cons c cs)
  obtain x xs where X: "Split cs sep = x # xs"
    using Split_not_Nil [of cs sep] by (cases "Split cs sep") auto
  with Cons show ?case
    by (cases xs) auto
qed

lemma Split_pieces_no_sep: "p \<in> set (Split s sep) \<Longrightarrow> sep \<notin> set p"
proof (induction s arbitrary: p)
  case Nil
  then show ?case by simp
next
  case (Cons c cs)
  obtain x xs where X: "Split cs sep = x # xs"
    using Split_not_Nil [of cs sep] by (cases "Split cs sep") auto
  with Cons show ?case
    by (auto split: if_splits)
qed

lemma length_Split_gt1: "1 < length (Split s sep) \<longleftrightarrow> sep \<in> set s"
proof (induction s)
  case Nil
  show ?case by simp
next
  case (Cons c cs)
  obtain x xs where X: "Split cs sep = x # xs"
    using Split_not_Nil [of cs sep] by (cases "Split cs sep") auto
  with Cons show ?case
    by auto
qed

lemma Split_no_sep: "sep \<notin> set s \<Longrightarrow> Split s sep = [s]"
  by (induction s) auto

lemma map_Message_linesWithOffset: "map Message (linesWithOffset ps off acc) = ps"
  by (induction ps arbitrary: acc) auto

lemma Split_append_sep: "sep \<notin> set l \<Longrightarrow> Split (l @ sep # rest) sep = l # Split rest sep"
  by (induction l) auto

lemma Split_file_of_lines:
  "\<forall>l \<in> set ls. nl \<notin> set l \<Longrightarrow> Split (file_of_lines ls @ t) nl = ls @ Split t nl"
  by (induction ls) (auto simp: file_of_lines_def Split_append_sep)

lemma read_split_rejoin:
  assumes "nl \<in> set chunk"
  shows "rejoin (read_split chunk off None) chunk = chunk"
proof -
  let ?ps = "Split chunk nl"
  have gt: "1 < length ?ps" using assms length_Split_gt1 [of chunk nl] by simp
  have tk: "take (length ?ps - Suc 0) ?ps = butlast ?ps" by (simp add: butlast_conv_take)
  have lst: "?ps ! (length ?ps - Suc 0) = last ?ps"
    using Split_not_Nil [of chunk nl] by (simp add: last_conv_nth)
  have rs: "read_split chunk off None = (linesWithOffset (butlast ?ps) off 0, int (length (last ?ps)))"
    using gt by (simp add: read_split_def Let_def tk lst)
  have eq: "concat (map (\<lambda>p. p @ [nl]) (butlast ?ps)) @ last ?ps = chunk"
    by (rule Split_rejoin)
  have m: "map (\<lambda>l. Message l @ [nl]) (linesWithOffset (butlast ?ps) off 0) = map (\<lambda>p. p @ [nl]) (butlast ?ps)"
    using map_Message_linesWithOffset [of "butlast ?ps" off 0]
    by (metis (no_types, lifting) map_map comp_apply map_eq_conv)
  have "length chunk = length (concat (map (\<lambda>p. p @ [nl]) (butlast ?ps))) + length (last ?ps)"
    using arg_cong [OF eq, of length] by simp
  then have "drop (length chunk - length (last ?ps)) chunk = last ?ps"
    using eq by (metis add_diff_cancel_right' append_eq_conv_conj)
  then show ?thesis
    using eq by (simp add: rejoin_def rs m)
qed


lemma read_split_no_nl:
  "nl \<notin> set chunk \<Longrightarrow>
     read_split chunk off None = ([\<lparr>Message = chunk, Offset = off, Size = int (length chunk)\<rparr>], 0)"
  by (simp add: read_split_def Split_no_sep)

lemma read_split_parts:
  assumes "nl \<in> set chunk"
  shows "read_split chunk off None
           = (linesWithOffset (butlast (Split chunk nl)) off 0, int (length (last (Split chunk nl))))"
proof -
  let ?ps = "Split chunk nl"
  have gt: "Suc 0 < length ?ps" using assms length_Split_gt1 [of chunk nl] by simp
  have tk: "take (length ?ps - Suc 0) ?ps = butlast ?ps" by (simp add: butlast_conv_take)
  have lst: "?ps ! (length ?ps - Suc 0) = last ?ps"
    using Split_not_Nil [of chunk nl] by (simp add: last_conv_nth)
  show ?thesis
    using gt by (simp add: read_split_def Let_def tk lst)
qed

lemma do_remote_file:
  "0 \<le> off \<Longrightarrow> do (remote_file content) (read_request rm off len)
     = Inr \<lparr>Data = take (nat len) (drop (nat off) content), RespOffset = off\<rparr>"
  by (simp add: do_def remote_file_def read_request_def)

subsection \<open>Errors of the construction\<close>

lemma offset_loop_no_panic: "0 \<le> i \<Longrightarrow> \<exists>v. offset_loop ls i off = Inr v"
proof (induction ls i off rule: offset_loop.induct)
  case (1 ls i off)
  show ?case
  proof (cases "i < int (length ls)")
    case True
    with 1 show ?thesis by (subst offset_loop.simps) simp
  next
    case False
    then show ?thesis by (subst offset_loop.simps) simp
  qed
qed

lemma read_Inl_iff: "read c rm off len m = Inl err \<longleftrightarrow> do c (read_request rm off len) = Inl err"
  by (auto simp: read_def split: sum.splits)

lemma read_request_offset_update [simp]: "read_request (rm\<lparr>offset := v\<rparr>) off len = read_request rm off len"
  by (simp add: read_request_def)

lemma read_offset_update [simp]: "read c (rm\<lparr>offset := v\<rparr>) off len m = read c rm off len m"
  by (simp add: read_def)

lemma locate_loop_error_iff:
  "(\<exists>err. fst (locate_loop c rm fl off) = Inl err)
     \<longleftrightarrow> (\<exists>req \<in> set (snd (locate_loop c rm fl off)). \<exists>err. do c req = Inl err)"
proof (induction c rm fl off rule: locate_loop.induct)
  case (1 c rm foundLines off)
  show ?case
  proof (cases "off < 1")
    case True
    then show ?thesis by (subst (1 2) locate_loop.simps) simp
  next
    case nt: False
    show ?thesis
    proof (cases "read c rm off chunkSize (Some reverse)")
      case (Inl err)
      moreover from Inl have "do c (read_request rm off chunkSize) = Inl err"
        by (simp add: read_Inl_iff)
      ultimately show ?thesis
        using nt by (subst (1 2) locate_loop.simps) auto
    next
      case (Inr x)
      obtain ls delta where x: "x = (ls, delta)" by (cases x)
      have ok: "\<nexists>err. do c (read_request rm off chunkSize) = Inl err"
        using Inr by (auto simp: read_def split: sum.splits)
      show ?thesis
      proof (cases "foundLines + int (length ls) \<ge> rm_n rm")
        case True
        then have "0 \<le> int (length ls) - (rm_n rm - foundLines)" by simp
        then obtain v where "offset_loop ls (int (length ls) - (rm_n rm - foundLines)) (offset rm) = Inr v"
          using offset_loop_no_panic by blast
        then show ?thesis
          using nt Inr x True ok by (subst (1 2) locate_loop.simps) (simp add: Let_def)
      next
        case False
        have IH: "(\<exists>err. fst (locate_loop c (rm\<lparr>offset := off - (chunkSize - delta)\<rparr>)
                      (foundLines + int (length ls)) (off - (chunkSize - delta))) = Inl err)
           \<longleftrightarrow> (\<exists>req \<in> set (snd (locate_loop c (rm\<lparr>offset := off - (chunkSize - delta)\<rparr>)
                      (foundLines + int (length ls)) (off - (chunkSize - delta)))). \<exists>err. do c req = Inl err)"
          using 1 [OF nt Inr x [symmetric] False refl refl] .
        show ?thesis
          using nt Inr x False ok IH
          by (subst (1 2) locate_loop.simps) (auto simp add: Let_def split: prod.splits)
      qed
    qed
  qed
qed

lemma locate_error_iff:
  "(\<exists>err. fst (locate c rm) = Inl err)
     \<longleftrightarrow> (\<exists>req \<in> set (snd (locate c rm)). \<exists>err. do c req = Inl err)"
proof (cases "readDirection rm = BottomToTop")
  case False
  then show ?thesis by (simp add: locate_def)
next
  case True
  show ?thesis
  proof (cases "do c (fileLen_request rm)")
    case (Inl err)
    then show ?thesis using True by (auto simp: locate_def fileLen_def)
  next
    case (Inr resp)
    then show ?thesis
      using True locate_loop_error_iff [of c "rm\<lparr>offset := RespOffset resp\<rparr>" 0 "RespOffset resp - chunkSize"]
      by (auto simp: locate_def fileLen_def split: prod.splits)
  qed
qed

lemma notEmpty_coordinates:
  "notEmpty [a, f, e, k] = (if a = [] \<or> f = [] \<or> e = [] \<or> k = [] then Some ErrEmptyParam else None)"
  by (simp add: notEmpty_def)

lemma apply_opts_options_of:
  "apply_opts (options_of cfg) rm = Inl err \<longleftrightarrow> err = ErrNonPositiveLines \<and> (\<exists>n\<le>0. Lines n \<in> set cfg)"
proof (induction cfg arbitrary: rm)
  case Nil
  show ?case by (simp add: options_of_def)
next
  case (Cons x cfg)
  then have IH: "\<And>rm. apply_opts (options_of cfg) rm = Inl err \<longleftrightarrow> err = ErrNonPositiveLines \<and> (\<exists>n\<le>0. Lines n \<in> set cfg)"
    by simp
  show ?case
  proof (cases x)
    case (Lines n)
    then show ?thesis
      using IH by (auto simp: options_of_def OptLines_def)
  next
    case (Direction d)
    then show ?thesis
      using IH by (auto simp: options_of_def OptReadDirection_def)
  next
    case (Stream b)
    then show ?thesis
      using IH by (auto simp: options_of_def OptStream_def)
  qed
qed

subsection \<open>One pull, and sequences of pulls\<close>

lemma prepend_loop_eq:
  "prepend_loop ls rm a
     = (rm\<lparr>lines := rev ls @ lines rm\<rparr>, a + (\<Sum>l\<leftarrow>ls. int (length (Message l)) + 1))"
  by (induction ls arbitrary: rm a) (simp_all add: Prepand_def algebra_simps)

lemma refill_frame:
  assumes "refill c rm = (Inr rm1, reqs)"
  shows "stream rm1 = stream rm \<and> rm_n rm1 = rm_n rm \<and> formatFn rm1 = formatFn rm
         \<and> readLines rm1 = readLines rm \<and> readDirection rm1 = readDirection rm
         \<and> sandboxPath rm1 = sandboxPath rm \<and> File rm1 = File rm"
  using assms
  by (auto simp: refill_def prepend_loop_eq split: if_splits sum.splits prod.splits)

lemma Pop_frame:
  assumes "Pop rm = (x, rm1)"
  shows "stream rm1 = stream rm \<and> rm_n rm1 = rm_n rm \<and> formatFn rm1 = formatFn rm
         \<and> readLines rm1 = readLines rm \<and> readDirection rm1 = readDirection rm
         \<and> sandboxPath rm1 = sandboxPath rm \<and> File rm1 = File rm \<and> offset rm1 = offset rm"
  using assms by (auto simp: Pop_def Let_def split: if_splits)

lemma Read_at_limit:
  "\<not> stream rm \<Longrightarrow> readLines rm = rm_n rm \<Longrightarrow> Read c rm blen = (Inl EOF, rm, [])"
  by (simp add: Read_def)

lemma Read_step:
  assumes "Read c rm blen = (res, rm', reqs)"
  shows "stream rm' = stream rm \<and> rm_n rm' = rm_n rm \<and> formatFn rm' = formatFn rm
         \<and> readLines rm \<le> readLines rm' \<and> readLines rm' \<le> readLines rm + 1
         \<and> (\<not> stream rm \<and> readLines rm \<le> rm_n rm \<longrightarrow> readLines rm' \<le> rm_n rm)
         \<and> (\<forall>s. res = Inr s \<longrightarrow> readLines rm' = readLines rm + 1
                \<and> (\<exists>l. Message l \<noteq> [] \<and> s = take blen (formatFn rm l)))"
proof (cases "\<not> stream rm \<and> readLines rm = rm_n rm")
  case True
  with assms show ?thesis by (auto simp add: Read_def)
next
  case go: False
  show ?thesis
  proof (cases "refill c rm")
    case (Pair r reqs1)
    show ?thesis
    proof (cases r)
      case (Inl err)
      with assms go Pair show ?thesis by (auto simp: Read_def)
    next
      case (Inr rm1)
      note f1 = refill_frame [OF Pair [unfolded Inr]]
      obtain x rm2 where P: "Pop rm1 = (x, rm2)" by (cases "Pop rm1")
      note f2 = Pop_frame [OF P]
      show ?thesis
      proof (cases x)
        case None
        with assms go Pair Inr P f1 f2 show ?thesis by (auto simp: Read_def)
      next
        case (Some line)
        with assms go Pair Inr P f1 f2 show ?thesis
          by (auto simp: Read_def Reader_Read_def split: if_splits)
      qed
    qed
  qed
qed

lemma pulls_counter:
  assumes "pulls c rm blens = (ress, rm', reqs)" and "\<not> stream rm" and "readLines rm \<le> rm_n rm"
  shows "readLines rm' \<le> rm_n rm \<and> rm_n rm' = rm_n rm \<and> \<not> stream rm' \<and> formatFn rm' = formatFn rm
         \<and> int (length (filter (\<lambda>r. \<not> isl r) ress)) \<le> readLines rm' - readLines rm
         \<and> (\<forall>s. Inr s \<in> set ress \<longrightarrow> (\<exists>l blen. Message l \<noteq> [] \<and> s = take blen (formatFn rm l)))"
  using assms
proof (induction blens arbitrary: rm ress reqs rm')
  case Nil
  then show ?case by simp
next
  case (Cons blen blens)
  obtain res rm1 reqs1 where R: "Read c rm blen = (res, rm1, reqs1)"
    by (cases "Read c rm blen") auto
  obtain ress2 rm2 reqs2 where P: "pulls c rm1 blens = (ress2, rm2, reqs2)"
    by (cases "pulls c rm1 blens") auto
  from Cons.prems(1) R P have eq: "ress = res # ress2" "rm' = rm2" by simp_all
  note st = Read_step [OF R]
  have pre: "\<not> stream rm1" "readLines rm1 \<le> rm_n rm1"
    using st Cons.prems by auto
  note IH = Cons.IH [OF P pre]
  have cnt: "int (length (filter (\<lambda>r. \<not> isl r) (res # ress2))) \<le> readLines rm2 - readLines rm"
  proof (cases res)
    case (Inl err)
    moreover have "readLines rm \<le> readLines rm1" using st by simp
    moreover have "int (length (filter (\<lambda>r. \<not> isl r) ress2)) \<le> readLines rm2 - readLines rm1"
      using IH by simp
    ultimately show ?thesis by simp
  next
    case (Inr s)
    moreover from Inr have "readLines rm1 = readLines rm + 1" using st by simp
    moreover have "int (length (filter (\<lambda>r. \<not> isl r) ress2)) \<le> readLines rm2 - readLines rm1"
      using IH by simp
    ultimately show ?thesis by simp
  qed
  have enc: "\<exists>l blen. Message l \<noteq> [] \<and> s = take blen (formatFn rm l)" if "Inr s \<in> set ress" for s
  proof (cases "res = Inr s")
    case True
    with st show ?thesis by blast
  next
    case False
    with that eq have "Inr s \<in> set ress2" by simp
    with IH st show ?thesis by simp
  qed
  have num: "readLines rm' \<le> rm_n rm \<and> rm_n rm' = rm_n rm \<and> \<not> stream rm' \<and> formatFn rm' = formatFn rm
         \<and> int (length (filter (\<lambda>r. \<not> isl r) ress)) \<le> readLines rm' - readLines rm"
    using IH st cnt eq by simp
  show ?case
    using num enc by blast
qed

lemma pulls_at_limit:
  "\<not> stream rm \<Longrightarrow> readLines rm = rm_n rm
     \<Longrightarrow> pulls c rm blens = (replicate (length blens) (Inl EOF), rm, [])"
  by (induction blens) (simp_all add: Read_at_limit)

subsection \<open>Pulls in streaming mode\<close>

lemma read_counters [simp]:
  "read c (rm\<lparr>rm_n := a, readLines := b\<rparr>) off len m = read c rm off len m"
  by (simp add: read_def read_request_def)

lemma refill_counters:
  "refill c (rm\<lparr>rm_n := a, readLines := b\<rparr>)
     = (map_sum id (\<lambda>r. r\<lparr>rm_n := a, readLines := b\<rparr>) (fst (refill c rm)), snd (refill c rm))"
  by (auto simp: refill_def prepend_loop_eq read_request_def split: sum.splits prod.splits)

lemma Pop_counters:
  "Pop (rm\<lparr>rm_n := a, readLines := b\<rparr>)
     = (fst (Pop rm), (snd (Pop rm))\<lparr>rm_n := a, readLines := b\<rparr>)"
  by (simp add: Pop_def Let_def)

lemma Read_stream_counters:
  assumes "stream rm"
  shows "fst (Read c (rm\<lparr>rm_n := a, readLines := b\<rparr>) blen) = fst (Read c rm blen)"
proof (cases "refill c rm")
  case (Pair r reqs)
  show ?thesis
  proof (cases r)
    case (Inl err)
    with Pair assms show ?thesis by (simp add: Read_def refill_counters)
  next
    case (Inr rm1)
    have fm: "formatFn (snd (Pop rm1)) = formatFn rm1"
      using Pop_frame [of rm1 "fst (Pop rm1)" "snd (Pop rm1)"] by simp
    from Pair Inr assms show ?thesis
      by (simp add: Read_def refill_counters Pop_counters fm split: prod.splits option.splits)
  qed
qed

lemma Pop_eq:
  "Pop rm = (if lines rm = [] then (None, rm) else (Some (last (lines rm)), rm\<lparr>lines := butlast (lines rm)\<rparr>))"
  by (simp add: Pop_def Let_def last_conv_nth butlast_conv_take)

lemma Read_stream_eq:
  assumes "stream rm"
  shows "Read c rm blen =
     (case refill c rm of
        (Inl err, reqs) \<Rightarrow> (Inl err, rm, reqs)
      | (Inr rm1, reqs) \<Rightarrow>
          if lines rm1 = [] then (Inl EOF, rm1, reqs)
          else if Message (last (lines rm1)) = [] then (Inl EOF, rm1\<lparr>lines := butlast (lines rm1)\<rparr>, reqs)
          else (Reader_Read (formatFn rm (last (lines rm1))) blen,
                rm1\<lparr>lines := butlast (lines rm1), readLines := readLines rm + 1\<rparr>, reqs))"
proof (cases "refill c rm")
  case (Pair r reqs)
  show ?thesis
  proof (cases r)
    case (Inl err)
    with Pair assms show ?thesis by (simp add: Read_def)
  next
    case (Inr rm1)
    note f = refill_frame [OF Pair [unfolded Inr]]
    from Pair Inr assms f show ?thesis
      by (simp add: Read_def Pop_eq)
  qed
qed

lemma refill_two_lines:
  assumes "lines rm = []" and "read c rm (offset rm) chunkSize None = Inr (l1 # l2 # ls, delta)"
  shows "\<exists>rm1 reqs. refill c rm = (Inr rm1, reqs) \<and> lines rm1 = rev ls @ [l2, l1]"
  using assms by (simp add: refill_def prepend_loop_eq)

subsection \<open>The swap loop, and the backward search on ASCII chunks\<close>

lemma fileLen_remote_file: "fileLen (remote_file content) rm = Inr (int (length content))"
  by (simp add: fileLen_def do_def remote_file_def fileLen_request_def)

lemma reverse_loop_middle:
  "reverse_loop (a @ m @ b) (int (length a)) (int (length a + length m) - 1) = a @ rev m @ b"
proof (induction "length m" arbitrary: a m b rule: less_induct)
  case less
  show ?case
  proof (cases "length m \<le> 1")
    case True
    then have "rev m = m" by (cases m) auto
    with True show ?thesis by (subst reverse_loop.simps) simp
  next
    case False
    then obtain x m1 where m: "m = x # m1" and "m1 \<noteq> []" by (cases m) auto
    then obtain m2 y where m1: "m1 = m2 @ [y]" by (metis rev_exhaust)
    have lt: "length m2 < length m" using m m1 by simp
    let ?xs = "a @ m @ b"
    have i: "nat (int (length a)) = length a" by simp
    have j: "nat (int (length a + length m) - 1) = length a + length m2 + 1" using m m1 by simp
    have xi: "?xs ! length a = x" using m by (simp add: nth_append)
    have xj: "?xs ! (length a + length m2 + 1) = y" using m m1 by (simp add: nth_append)
    have upd: "?xs[length a := y, length a + length m2 + 1 := x] = (a @ [y]) @ m2 @ ([x] @ b)"
      using m m1 by (simp add: list_update_append)
    have idx: "int (length a) + 1 = int (length (a @ [y]))"
      "int (length a + length m) - 1 - 1 = int (length (a @ [y]) + length m2) - 1"
      using m m1 by simp_all
    have lt2: "int (length a) < int (length a + length m) - 1" using m m1 by simp
    have step: "reverse_loop ?xs (int (length a)) (int (length a + length m) - 1)
          = reverse_loop (?xs[nat (int (length a)) := ?xs ! nat (int (length a + length m) - 1),
                              nat (int (length a + length m) - 1) := ?xs ! nat (int (length a))])
              (int (length a) + 1) (int (length a + length m) - 1 - 1)"
      using lt2 by (subst reverse_loop.simps) (simp only: if_True)
    have updfull: "?xs[nat (int (length a)) := ?xs ! nat (int (length a + length m) - 1),
                       nat (int (length a + length m) - 1) := ?xs ! nat (int (length a))]
          = (a @ [y]) @ m2 @ ([x] @ b)"
      using upd by (simp only: i j xi xj)
    have "reverse_loop ?xs (int (length a)) (int (length a + length m) - 1)
          = reverse_loop ((a @ [y]) @ m2 @ ([x] @ b)) (int (length (a @ [y]))) (int (length (a @ [y]) + length m2) - 1)"
      by (simp only: step updfull idx)
    also have "\<dots> = (a @ [y]) @ rev m2 @ ([x] @ b)"
      by (rule less [OF lt])
    finally show ?thesis using m m1 by simp
  qed
qed

lemma reverse_loop_rev: "reverse_loop xs 0 (int (length xs) - 1) = rev xs"
  using reverse_loop_middle [of "[]" xs "[]"] by simp

lemma reverse_eq: "reverse s = string_of_runes (rev (runes_of s))"
  by (simp add: reverse_def Let_def reverse_loop_rev)

lemma runes_of_Nil [simp]: "runes_of [] = []"
  by (subst runes_of.simps) simp

lemma runes_of_ascii: "\<forall>c \<in> set s. (of_char c :: nat) < 128 \<Longrightarrow> runes_of s = map of_char s"
proof (induction s)
  case Nil
  show ?case by simp
next
  case (Cons c cs)
  then show ?case by (subst runes_of.simps) simp
qed

lemma string_of_runes_ascii:
  "\<forall>c \<in> set s. (of_char c :: nat) < 128 \<Longrightarrow> string_of_runes (map of_char s) = s"
  by (induction s) (simp_all add: string_of_runes_def EncodeRune_def)

lemma reverse_ascii:
  assumes "\<forall>c \<in> set s. (of_char c :: nat) < 128"
  shows "reverse s = rev s"
proof -
  have "\<forall>c \<in> set (rev s). (of_char c :: nat) < 128" using assms by simp
  then have "string_of_runes (map of_char (rev s)) = rev s" by (rule string_of_runes_ascii)
  then show ?thesis
    using assms by (simp add: reverse_eq runes_of_ascii rev_map)
qed

lemma read_split_reverse_tail:
  assumes "x \<noteq> nl" and "(of_char x :: nat) < 128"
  shows "read_split (replicate n x @ [nl]) off (Some reverse)
           = ([\<lparr>Message = [], Offset = off, Size = 0\<rparr>], int n)"
proof -
  have "\<forall>c \<in> set (replicate n x @ [nl]). (of_char c :: nat) < 128"
    using assms by (auto simp: nl_def)
  then have r: "reverse (replicate n x @ [nl]) = nl # replicate n x"
    by (simp add: reverse_ascii)
  have "nl \<notin> set (replicate n x)" using assms by auto
  then have "Split (nl # replicate n x) nl = [[], replicate n x]"
    by (simp add: Split_no_sep)
  then show ?thesis
    by (simp add: read_split_def r)
qed

lemma read_split_reverse_head:
  assumes "x \<noteq> nl" and "(of_char x :: nat) < 128"
  shows "read_split (nl # replicate n x) off (Some reverse)
           = ([\<lparr>Message = replicate n x, Offset = off, Size = int n\<rparr>], 0)"
proof -
  have "\<forall>c \<in> set (nl # replicate n x). (of_char c :: nat) < 128"
    using assms by (auto simp: nl_def)
  then have r: "reverse (nl # replicate n x) = replicate n x @ [nl]"
    by (simp add: reverse_ascii)
  have "nl \<notin> set (replicate n x)" using assms by auto
  then have "Split (replicate n x @ [nl]) nl = [replicate n x, []]"
    by (simp add: Split_append_sep)
  then show ?thesis
    by (simp add: read_split_def r)
qed

subsection \<open>Reading a one-chunk file from the top\<close>

lemma length_file_of_lines: "int (length (file_of_lines ls)) = (\<Sum>l\<leftarrow>ls. int (length l) + 1)"
  by (induction ls) (simp_all add: file_of_lines_def)

lemma sum_linesWithOffset:
  "(\<Sum>l\<leftarrow>linesWithOffset ps off acc. int (length (Message l)) + 1) = (\<Sum>p\<leftarrow>ps. int (length p) + 1)"
  by (induction ps arbitrary: acc) simp_all

lemma file_of_lines_last:
  "ls \<noteq> [] \<Longrightarrow> drop (length (file_of_lines ls) - 1) (file_of_lines ls) = [nl]"
proof -
  assume "ls \<noteq> []"
  then obtain xs x where "ls = xs @ [x]" by (metis rev_exhaust)
  then have "file_of_lines ls = (file_of_lines xs @ x) @ [nl]"
    by (simp add: file_of_lines_def)
  then show ?thesis by (simp del: append_assoc)
qed

lemma Read_from_buffer:
  assumes "lines rm = bs @ [l]" and "Message l \<noteq> []" and "formatFn rm l \<noteq> []"
    and "stream rm \<or> readLines rm \<noteq> rm_n rm"
  shows "Read c rm blen
           = (Inr (take blen (formatFn rm l)), rm\<lparr>lines := bs, readLines := readLines rm + 1\<rparr>, [])"
  using assms by (auto simp: Read_def refill_def Pop_eq Reader_Read_def)

lemma drain_buffer:
  assumes "lines rm = rev B" and "\<forall>l \<in> set B. Message l \<noteq> [] \<and> formatFn rm l \<noteq> []"
    and "stream rm \<or> readLines rm + int (length B) \<le> rm_n rm"
  shows "drain (length B + fuel) c rm blen
           = (case drain fuel c (rm\<lparr>lines := [], readLines := readLines rm + int (length B)\<rparr>) blen of
                None \<Rightarrow> None
              | Some (ss, err) \<Rightarrow> Some (map (\<lambda>l. take blen (formatFn rm l)) B @ ss, err))"
  using assms
proof (induction B arbitrary: rm)
  case Nil
  then have "rm\<lparr>lines := [], readLines := readLines rm + int (length ([] :: Line list))\<rparr> = rm"
    by simp
  then show ?case by (simp split: option.splits)
next
  case (Cons l B)
  let ?rm1 = "rm\<lparr>lines := rev B, readLines := readLines rm + 1\<rparr>"
  have R: "Read c rm blen = (Inr (take blen (formatFn rm l)), ?rm1, [])"
    using Cons.prems by (intro Read_from_buffer) auto
  have IH: "drain (length B + fuel) c ?rm1 blen
           = (case drain fuel c (?rm1\<lparr>lines := [], readLines := readLines ?rm1 + int (length B)\<rparr>) blen of
                None \<Rightarrow> None
              | Some (ss, err) \<Rightarrow> Some (map (\<lambda>l. take blen (formatFn ?rm1 l)) B @ ss, err))"
    using Cons.prems by (intro Cons.IH) auto
  have eq: "?rm1\<lparr>lines := [], readLines := readLines ?rm1 + int (length B)\<rparr>
            = rm\<lparr>lines := [], readLines := readLines rm + int (length (l # B))\<rparr>"
    by (simp add: algebra_simps)
  show ?case
    using R IH unfolding eq by (simp split: option.splits)
qed

lemma refill_small_file:
  assumes "2 \<le> length ls" and "\<forall>l \<in> set ls. nl \<notin> set l"
    and "int (length (file_of_lines ls)) \<le> chunkSize"
    and "lines rm = []" and "offset rm = 0"
  shows "refill (remote_file (file_of_lines ls)) rm
           = (Inr (rm\<lparr>lines := rev (linesWithOffset ls 0 0), offset := int (length (file_of_lines ls)) - 1\<rparr>),
              [read_request rm 0 chunkSize])"
proof -
  let ?F = "file_of_lines ls"
  have tk: "take (nat chunkSize) ?F = ?F" using assms(3) by simp
  have sp: "Split ?F nl = ls @ [[]]"
    using Split_file_of_lines [OF assms(2), of "[]"] by simp
  have rs: "read_split ?F 0 None = (linesWithOffset ls 0 0, 0)"
    using assms(1) by (auto simp add: read_split_def sp Let_def nth_append)
  have rd: "read (remote_file ?F) rm 0 chunkSize None = Inr (linesWithOffset ls 0 0, 0)"
    by (simp add: read_def do_remote_file tk rs)
  have sm: "(\<Sum>l\<leftarrow>linesWithOffset ls 0 0. int (length (Message l)) + 1) = int (length ?F)"
    by (simp add: sum_linesWithOffset length_file_of_lines)
  show ?thesis
    using assms(1,3,4,5)
    by (simp add: refill_def rd prepend_loop_eq length_linesWithOffset sm)
qed

lemma refill_at_end:
  assumes "ls \<noteq> []" and "lines rm = []" and "offset rm = int (length (file_of_lines ls)) - 1"
  shows "refill (remote_file (file_of_lines ls)) rm = (Inr rm, [read_request rm (offset rm) chunkSize])"
proof -
  let ?F = "file_of_lines ls"
  have pos: "0 < length ?F" using assms(1) by (cases ls) (simp_all add: file_of_lines_def)
  then have n: "nat (int (length ?F) - 1) = length ?F - 1" by simp
  have o: "0 \<le> offset rm" using assms(3) pos by simp
  have dr: "take (nat chunkSize) (drop (nat (offset rm)) ?F) = [nl]"
    using file_of_lines_last [OF assms(1)] by (simp add: assms(3) n chunkSize_def)
  have rd: "read (remote_file ?F) rm (offset rm) chunkSize None
              = Inr ([\<lparr>Message = [], Offset = offset rm, Size = 0\<rparr>], 0)"
    by (simp add: read_def do_remote_file [OF o] dr read_split_def)
  show ?thesis
    using assms(2) by (simp add: refill_def rd)
qed

lemma Read_at_end:
  assumes "ls \<noteq> []" and "lines rm = []" and "offset rm = int (length (file_of_lines ls)) - 1"
  shows "fst (Read (remote_file (file_of_lines ls)) rm blen) = Inl EOF"
  using assms(2) by (simp add: Read_def refill_at_end [OF assms] Pop_eq)

lemma drain_refill:
  assumes "lines rm = []" and "refill c rm = (Inr rm1, reqs)" and "lines rm1 \<noteq> []"
  shows "drain fuel c rm blen = drain fuel c rm1 blen"
proof (cases fuel)
  case 0
  then show ?thesis by simp
next
  case (Suc k)
  note f = refill_frame [OF assms(2)]
  have r1: "refill c rm1 = (Inr rm1, [])" using assms(3) by (simp add: refill_def)
  show ?thesis
  proof (cases "\<not> stream rm \<and> readLines rm = rm_n rm")
    case True
    then have "Read c rm blen = (Inl EOF, rm, [])" and "Read c rm1 blen = (Inl EOF, rm1, [])"
      using f by (simp_all add: Read_def)
    then show ?thesis unfolding Suc by simp
  next
    case False
    then have "fst (Read c rm blen) = fst (Read c rm1 blen)
        \<and> fst (snd (Read c rm blen)) = fst (snd (Read c rm1 blen))"
      using f by (auto simp add: Read_def assms(2) r1 split: prod.splits option.splits)
    moreover obtain res rmA reqsA where A: "Read c rm blen = (res, rmA, reqsA)"
      by (cases "Read c rm blen") auto
    moreover obtain res' rmB reqsB where B: "Read c rm1 blen = (res', rmB, reqsB)"
      by (cases "Read c rm1 blen") auto
    ultimately have "res' = res" and "rmB = rmA" by simp_all
    with A B show ?thesis
      unfolding Suc by (cases res) simp_all
  qed
qed

subsection \<open>Decoding and encoding UTF-8\<close>

lemma mod_off: "x < m \<Longrightarrow> (k * m + x) mod m = (x::nat)"
  by simp

lemma div_off: "y < m \<Longrightarrow> (x * m + y) div m = (x::nat)"
  by simp

lemma enc1: "r < 128 \<Longrightarrow> EncodeRune r = [char_of r]"
  by (simp add: EncodeRune_def)

lemma enc2:
  fixes x y :: nat
  assumes "2 \<le> x" "x < 32" "y < 64"
  shows "EncodeRune (x * 64 + y) = [char_of (192 + x), char_of (128 + y)]"
proof -
  have lo: "\<not> x * 64 + y \<le> 127" using assms by linarith
  have hi: "x * 64 + y \<le> 2047" using assms by linarith
  have d: "(x * 64 + y) div 64 = x" using assms by simp
  have m: "(x * 64 + y) mod 64 = y" using assms by simp
  show ?thesis
    unfolding EncodeRune_def using lo hi by (simp only: d m if_True if_False)
qed

lemma enc3:
  fixes x y z :: nat
  assumes "x < 16" "y < 64" "z < 64" "x = 0 \<longrightarrow> 32 \<le> y" "x = 13 \<longrightarrow> y < 32"
  shows "EncodeRune (x * 4096 + y * 64 + z) = [char_of (224 + x), char_of (128 + y), char_of (128 + z)]"
proof -
  let ?r = "x * 4096 + y * 64 + z"
  have a: "\<not> ?r \<le> 127" "\<not> ?r \<le> 2047" "?r \<le> 65535" "\<not> ?r > 1114111"
    using assms by linarith+
  have s: "\<not> (55296 \<le> ?r \<and> ?r \<le> 57343)"
  proof (cases "x \<le> 12")
    case True
    then show ?thesis using assms by linarith
  next
    case False
    show ?thesis
    proof (cases "x = 13")
      case True
      then show ?thesis using assms by linarith
    next
      case False
      with \<open>\<not> x \<le> 12\<close> have "14 \<le> x" by linarith
      then show ?thesis by linarith
    qed
  qed
  have "?r = x * 4096 + (y * 64 + z)" by simp
  moreover have "y * 64 + z < 4096" using assms by linarith
  ultimately have d1: "?r div 4096 = x" by simp
  have e: "?r = (x * 64 + y) * 64 + z" by simp
  have "?r div 64 = x * 64 + y" unfolding e using assms(3) by (rule div_off)
  then have d2: "(?r div 64) mod 64 = y" using mod_off [OF assms(2), of x] by simp
  have d3: "?r mod 64 = z" unfolding e using assms(3) by (rule mod_off)
  show ?thesis
    unfolding EncodeRune_def using a s by (simp only: d1 d2 d3 if_True if_False simp_thms)
qed

lemma enc4:
  fixes x y z u :: nat
  assumes "x < 5" "y < 64" "z < 64" "u < 64" "x = 0 \<longrightarrow> 16 \<le> y" "x = 4 \<longrightarrow> y < 16"
  shows "EncodeRune (x * 262144 + y * 4096 + z * 64 + u)
           = [char_of (240 + x), char_of (128 + y), char_of (128 + z), char_of (128 + u)]"
proof -
  let ?r = "x * 262144 + y * 4096 + z * 64 + u"
  have a: "\<not> ?r \<le> 127" "\<not> ?r \<le> 2047" "\<not> ?r \<le> 65535"
    using assms by linarith+
  have b: "\<not> ?r > 1114111"
  proof (cases "x = 4")
    case True
    then show ?thesis using assms by linarith
  next
    case False
    then have "x \<le> 3" using assms by linarith
    then show ?thesis using assms by linarith
  qed
  have s: "\<not> (55296 \<le> ?r \<and> ?r \<le> 57343)" using a by linarith
  have "?r = x * 262144 + (y * 4096 + z * 64 + u)" by simp
  moreover have "y * 4096 + z * 64 + u < 262144" using assms by linarith
  ultimately have d1: "?r div 262144 = x" by simp
  have e2: "?r = (x * 64 + y) * 4096 + (z * 64 + u)" by simp
  have lt2: "z * 64 + u < 4096" using assms by linarith
  have "?r div 4096 = x * 64 + y" unfolding e2 using lt2 by (rule div_off)
  then have d2: "(?r div 4096) mod 64 = y" using mod_off [OF assms(2), of x] by simp
  have e3: "?r = ((x * 64 + y) * 64 + z) * 64 + u" by simp
  have "?r div 64 = (x * 64 + y) * 64 + z" unfolding e3 using assms(4) by (rule div_off)
  then have d3: "(?r div 64) mod 64 = z" using mod_off [OF assms(3), of "x * 64 + y"] by simp
  have d4: "?r mod 64 = u" unfolding e3 using assms(4) by (rule mod_off)
  show ?thesis
    unfolding EncodeRune_def using a b s by (simp only: d1 d2 d3 d4 if_True if_False simp_thms)
qed

lemma mask_mod:
  fixes b :: nat
  shows "192 \<le> b \<Longrightarrow> b \<le> 223 \<Longrightarrow> b mod 32 = b - 192"
    and "224 \<le> b \<Longrightarrow> b \<le> 239 \<Longrightarrow> b mod 16 = b - 224"
    and "240 \<le> b \<Longrightarrow> b \<le> 247 \<Longrightarrow> b mod 8 = b - 240"
    and "128 \<le> b \<Longrightarrow> b \<le> 191 \<Longrightarrow> b mod 64 = b - 128"
proof -
  show "b mod 32 = b - 192" if "192 \<le> b" "b \<le> 223"
  proof -
    from that have "b = 6 * 32 + (b - 192)" and "b - 192 < 32" by linarith+
    then show ?thesis using mod_off [of "b - 192" 32 6] by simp
  qed
  show "b mod 16 = b - 224" if "224 \<le> b" "b \<le> 239"
  proof -
    from that have "b = 14 * 16 + (b - 224)" and "b - 224 < 16" by linarith+
    then show ?thesis using mod_off [of "b - 224" 16 14] by simp
  qed
  show "b mod 8 = b - 240" if "240 \<le> b" "b \<le> 247"
  proof -
    from that have "b = 30 * 8 + (b - 240)" and "b - 240 < 8" by linarith+
    then show ?thesis using mod_off [of "b - 240" 8 30] by simp
  qed
  show "b mod 64 = b - 128" if "128 \<le> b" "b \<le> 191"
  proof -
    from that have "b = 2 * 64 + (b - 128)" and "b - 128 < 64" by linarith+
    then show ?thesis using mod_off [of "b - 128" 64 2] by simp
  qed
qed

lemma cont_range: "cont c \<Longrightarrow> 128 \<le> (of_char c :: nat) \<and> (of_char c :: nat) \<le> 191"
  by (simp add: cont_def)

lemma second_ok_range:
  assumes "second_ok b0 c"
  shows "128 \<le> (of_char c :: nat) \<and> (of_char c :: nat) \<le> 191
         \<and> (b0 = 224 \<longrightarrow> 160 \<le> (of_char c :: nat)) \<and> (b0 = 237 \<longrightarrow> (of_char c :: nat) \<le> 159)
         \<and> (b0 = 240 \<longrightarrow> 144 \<le> (of_char c :: nat)) \<and> (b0 = 244 \<longrightarrow> (of_char c :: nat) \<le> 143)"
  using assms by (auto simp: second_ok_def accept_lo_def accept_hi_def split: if_splits)

lemma char_of_back:
  fixes b :: nat
  shows "k \<le> b \<Longrightarrow> b = of_char c \<Longrightarrow> char_of (k + (b - k)) = c"
  by simp

lemma decode2:
  assumes "194 \<le> (of_char c0 :: nat)" "(of_char c0 :: nat) \<le> 223" "second_ok (of_char c0) c1"
  shows "DecodeRuneInString (c0 # c1 # cs) = (((of_char c0 :: nat) - 192) * 64 + ((of_char c1 :: nat) - 128), 2)"
    and "EncodeRune (((of_char c0 :: nat) - 192) * 64 + ((of_char c1 :: nat) - 128)) = [c0, c1]"
proof -
  note r = second_ok_range [OF assms(3)]
  have m0: "(of_char c0 :: nat) mod 32 = of_char c0 - 192" using assms by (intro mask_mod) simp_all
  have m1: "(of_char c1 :: nat) mod 64 = of_char c1 - 128" using r by (intro mask_mod) simp_all
  show "DecodeRuneInString (c0 # c1 # cs) = (((of_char c0 :: nat) - 192) * 64 + ((of_char c1 :: nat) - 128), 2)"
    using assms by (simp add: m0 m1)
  have "EncodeRune (((of_char c0 :: nat) - 192) * 64 + ((of_char c1 :: nat) - 128))
          = [char_of (192 + ((of_char c0 :: nat) - 192)), char_of (128 + ((of_char c1 :: nat) - 128))]"
    using assms r by (intro enc2) linarith+
  also have "\<dots> = [c0, c1]"
    using assms r by simp
  finally show "EncodeRune (((of_char c0 :: nat) - 192) * 64 + ((of_char c1 :: nat) - 128)) = [c0, c1]" .
qed

lemma decode3:
  assumes "224 \<le> (of_char c0 :: nat)" "(of_char c0 :: nat) \<le> 239" "second_ok (of_char c0) c1" "cont c2"
  shows "DecodeRuneInString (c0 # c1 # c2 # cs)
           = (((of_char c0 :: nat) - 224) * 4096 + ((of_char c1 :: nat) - 128) * 64 + ((of_char c2 :: nat) - 128), 3)"
    and "EncodeRune (((of_char c0 :: nat) - 224) * 4096 + ((of_char c1 :: nat) - 128) * 64 + ((of_char c2 :: nat) - 128))
           = [c0, c1, c2]"
proof -
  note r1 = second_ok_range [OF assms(3)]
  note r2 = cont_range [OF assms(4)]
  have m0: "(of_char c0 :: nat) mod 16 = of_char c0 - 224" using assms by (intro mask_mod) simp_all
  have m1: "(of_char c1 :: nat) mod 64 = of_char c1 - 128" using r1 by (intro mask_mod) simp_all
  have m2: "(of_char c2 :: nat) mod 64 = of_char c2 - 128" using r2 by (intro mask_mod) simp_all
  show "DecodeRuneInString (c0 # c1 # c2 # cs)
           = (((of_char c0 :: nat) - 224) * 4096 + ((of_char c1 :: nat) - 128) * 64 + ((of_char c2 :: nat) - 128), 3)"
    using assms by (simp add: m0 m1 m2)
  have "EncodeRune (((of_char c0 :: nat) - 224) * 4096 + ((of_char c1 :: nat) - 128) * 64 + ((of_char c2 :: nat) - 128))
          = [char_of (224 + ((of_char c0 :: nat) - 224)), char_of (128 + ((of_char c1 :: nat) - 128)),
             char_of (128 + ((of_char c2 :: nat) - 128))]"
  proof (intro enc3)
    show "(of_char c0 :: nat) - 224 < 16" using assms by linarith
    show "(of_char c1 :: nat) - 128 < 64" using r1 by linarith
    show "(of_char c2 :: nat) - 128 < 64" using r2 by linarith
    show "(of_char c0 :: nat) - 224 = 0 \<longrightarrow> 32 \<le> (of_char c1 :: nat) - 128"
    proof
      assume "(of_char c0 :: nat) - 224 = 0"
      with assms have "(of_char c0 :: nat) = 224" by linarith
      with r1 have "160 \<le> (of_char c1 :: nat)" by simp
      then show "32 \<le> (of_char c1 :: nat) - 128" by linarith
    qed
    show "(of_char c0 :: nat) - 224 = 13 \<longrightarrow> (of_char c1 :: nat) - 128 < 32"
    proof
      assume "(of_char c0 :: nat) - 224 = 13"
      then have "(of_char c0 :: nat) = 237" by linarith
      with r1 have "(of_char c1 :: nat) \<le> 159" by simp
      then show "(of_char c1 :: nat) - 128 < 32" by linarith
    qed
  qed
  also have "\<dots> = [c0, c1, c2]"
    using assms r1 r2 by simp
  finally show "EncodeRune (((of_char c0 :: nat) - 224) * 4096 + ((of_char c1 :: nat) - 128) * 64 + ((of_char c2 :: nat) - 128))
           = [c0, c1, c2]" .
qed

lemma decode4:
  assumes "240 \<le> (of_char c0 :: nat)" "(of_char c0 :: nat) \<le> 244" "second_ok (of_char c0) c1"
    "cont c2" "cont c3"
  shows "DecodeRuneInString (c0 # c1 # c2 # c3 # cs)
           = (((of_char c0 :: nat) - 240) * 262144 + ((of_char c1 :: nat) - 128) * 4096
                + ((of_char c2 :: nat) - 128) * 64 + ((of_char c3 :: nat) - 128), 4)"
    and "EncodeRune (((of_char c0 :: nat) - 240) * 262144 + ((of_char c1 :: nat) - 128) * 4096
                + ((of_char c2 :: nat) - 128) * 64 + ((of_char c3 :: nat) - 128))
           = [c0, c1, c2, c3]"
proof -
  note r1 = second_ok_range [OF assms(3)]
  note r2 = cont_range [OF assms(4)]
  note r3 = cont_range [OF assms(5)]
  have m0: "(of_char c0 :: nat) mod 8 = of_char c0 - 240" using assms by (intro mask_mod) simp_all
  have m1: "(of_char c1 :: nat) mod 64 = of_char c1 - 128" using r1 by (intro mask_mod) simp_all
  have m2: "(of_char c2 :: nat) mod 64 = of_char c2 - 128" using r2 by (intro mask_mod) simp_all
  have m3: "(of_char c3 :: nat) mod 64 = of_char c3 - 128" using r3 by (intro mask_mod) simp_all
  show "DecodeRuneInString (c0 # c1 # c2 # c3 # cs)
           = (((of_char c0 :: nat) - 240) * 262144 + ((of_char c1 :: nat) - 128) * 4096
                + ((of_char c2 :: nat) - 128) * 64 + ((of_char c3 :: nat) - 128), 4)"
    using assms by (simp add: m0 m1 m2 m3)
  have "EncodeRune (((of_char c0 :: nat) - 240) * 262144 + ((of_char c1 :: nat) - 128) * 4096
                + ((of_char c2 :: nat) - 128) * 64 + ((of_char c3 :: nat) - 128))
          = [char_of (240 + ((of_char c0 :: nat) - 240)), char_of (128 + ((of_char c1 :: nat) - 128)),
             char_of (128 + ((of_char c2 :: nat) - 128)), char_of (128 + ((of_char c3 :: nat) - 128))]"
  proof (intro enc4)
    show "(of_char c0 :: nat) - 240 < 5" using assms by linarith
    show "(of_char c1 :: nat) - 128 < 64" using r1 by linarith
    show "(of_char c2 :: nat) - 128 < 64" using r2 by linarith
    show "(of_char c3 :: nat) - 128 < 64" using r3 by linarith
    show "(of_char c0 :: nat) - 240 = 0 \<longrightarrow> 16 \<le> (of_char c1 :: nat) - 128"
    proof
      assume "(of_char c0 :: nat) - 240 = 0"
      with assms have "(of_char c0 :: nat) = 240" by linarith
      with r1 have "144 \<le> (of_char c1 :: nat)" by simp
      then show "16 \<le> (of_char c1 :: nat) - 128" by linarith
    qed
    show "(of_char c0 :: nat) - 240 = 4 \<longrightarrow> (of_char c1 :: nat) - 128 < 16"
    proof
      assume "(of_char c0 :: nat) - 240 = 4"
      then have "(of_char c0 :: nat) = 244" by linarith
      with r1 have "(of_char c1 :: nat) \<le> 143" by simp
      then show "(of_char c1 :: nat) - 128 < 16" by linarith
    qed
  qed
  also have "\<dots> = [c0, c1, c2, c3]"
    using assms r1 r2 r3 by simp
  finally show "EncodeRune (((of_char c0 :: nat) - 240) * 262144 + ((of_char c1 :: nat) - 128) * 4096
                + ((of_char c2 :: nat) - 128) * 64 + ((of_char c3 :: nat) - 128))
           = [c0, c1, c2, c3]" .
qed

lemma decode_valid_step:
  assumes "DecodeRuneInString (c0 # cs) = (r, w)" and "(of_char c0 :: nat) < 128 \<or> 1 < w"
  shows "EncodeRune r = take w (c0 # cs)"
proof -
  note DecodeRuneInString.simps [simp del]
  have fallback: False if "DecodeRuneInString (c0 # cs) = (RuneError, 1)" "\<not> (of_char c0 :: nat) < 128"
    using that assms by simp
  consider (a) "(of_char c0 :: nat) < 128"
    | (b) "194 \<le> (of_char c0 :: nat)" "(of_char c0 :: nat) \<le> 223"
    | (c) "224 \<le> (of_char c0 :: nat)" "(of_char c0 :: nat) \<le> 239"
    | (d) "240 \<le> (of_char c0 :: nat)" "(of_char c0 :: nat) \<le> 244"
    | (e) "128 \<le> (of_char c0 :: nat)" "(of_char c0 :: nat) < 194 \<or> 244 < (of_char c0 :: nat)"
    by linarith
  then show ?thesis
  proof cases
    case a
    then have "DecodeRuneInString (c0 # cs) = (of_char c0, 1)"
      by (simp add: DecodeRuneInString.simps)
    with assms(1) have "r = of_char c0" "w = 1" by simp_all
    with a show ?thesis by (simp add: enc1)
  next
    case e
    then have "DecodeRuneInString (c0 # cs) = (RuneError, 1)"
      by (auto simp: DecodeRuneInString.simps)
    moreover from e have "\<not> (of_char c0 :: nat) < 128" by linarith
    ultimately show ?thesis using fallback by blast
  next
    case b
    then have hi: "\<not> (of_char c0 :: nat) < 128" by linarith
    show ?thesis
    proof (cases cs)
      case Nil
      with b hi have "DecodeRuneInString (c0 # cs) = (RuneError, 1)"
        by (simp add: DecodeRuneInString.simps)
      with hi show ?thesis using fallback by blast
    next
      case (Cons c1 cs1)
      show ?thesis
      proof (cases "second_ok (of_char c0) c1")
        case True
        from decode2(1) [OF b True, of cs1] decode2(2) [OF b True] assms(1) Cons show ?thesis by simp
      next
        case False
        with b hi Cons have "DecodeRuneInString (c0 # cs) = (RuneError, 1)"
          by (simp add: DecodeRuneInString.simps)
        with hi show ?thesis using fallback by blast
      qed
    qed
  next
    case c
    then have hi: "\<not> (of_char c0 :: nat) < 128" "\<not> (194 \<le> (of_char c0 :: nat) \<and> (of_char c0 :: nat) \<le> 223)"
      by linarith+
    show ?thesis
    proof (cases "\<exists>c1 c2 cs2. cs = c1 # c2 # cs2 \<and> second_ok (of_char c0) c1 \<and> cont c2")
      case True
      then obtain c1 c2 cs2 where cs: "cs = c1 # c2 # cs2" and ok: "second_ok (of_char c0) c1" "cont c2"
        by blast
      from decode3(1) [OF c ok, of cs2] decode3(2) [OF c ok] assms(1) cs show ?thesis by simp
    next
      case False
      with c hi have "DecodeRuneInString (c0 # cs) = (RuneError, 1)"
        by (auto simp: DecodeRuneInString.simps Let_def split: list.splits)
      with hi show ?thesis using fallback by blast
    qed
  next
    case d
    then have hi: "\<not> (of_char c0 :: nat) < 128" "\<not> (194 \<le> (of_char c0 :: nat) \<and> (of_char c0 :: nat) \<le> 223)"
      "\<not> (224 \<le> (of_char c0 :: nat) \<and> (of_char c0 :: nat) \<le> 239)"
      by linarith+
    show ?thesis
    proof (cases "\<exists>c1 c2 c3 cs3. cs = c1 # c2 # c3 # cs3 \<and> second_ok (of_char c0) c1 \<and> cont c2 \<and> cont c3")
      case True
      then obtain c1 c2 c3 cs3 where cs: "cs = c1 # c2 # c3 # cs3"
        and ok: "second_ok (of_char c0) c1" "cont c2" "cont c3"
        by blast
      from decode4(1) [OF d ok, of cs3] decode4(2) [OF d ok] assms(1) cs show ?thesis by simp
    next
      case False
      with d hi have "DecodeRuneInString (c0 # cs) = (RuneError, 1)"
        by (auto simp: DecodeRuneInString.simps Let_def split: list.splits)
      with hi show ?thesis using fallback by blast
    qed
  qed
qed

lemma string_of_runes_Cons: "string_of_runes (r # rs) = EncodeRune r @ string_of_runes rs"
  by (simp add: string_of_runes_def)

lemma roundtrip_valid: "ValidString s \<Longrightarrow> string_of_runes (runes_of s) = s"
proof (induction s rule: runes_of.induct)
  case (1 s)
  show ?case
  proof (cases "s = []")
    case True
    then show ?thesis by (simp add: string_of_runes_def)
  next
    case False
    then obtain c0 cs where s: "s = c0 # cs" by (cases s) auto
    obtain r w where d: "DecodeRuneInString s = (r, w)" by (cases "DecodeRuneInString s")
    from "1.prems" False d have step: "(of_char (hd s) :: nat) < 128 \<or> 1 < w" and rest: "ValidString (drop w s)"
      by (subst (asm) ValidString.simps, simp)+
    have enc: "EncodeRune r = take w s"
      using decode_valid_step [of c0 cs r w] d step s by simp
    have IH: "string_of_runes (runes_of (drop w s)) = drop w s"
      using "1.IH" [OF False d [symmetric] rest] .
    have "runes_of s = r # runes_of (drop w s)"
      using False d by (subst runes_of.simps) simp
    then show ?thesis
      by (simp add: string_of_runes_Cons enc IH)
  qed
qed

subsection \<open>Reversal and the positions of the terminators\<close>

lemma Split_snoc_sep: "Split (xs @ [sep]) sep = Split xs sep @ [[]]"
  by (induction xs) (simp_all add: Split_not_Nil)

lemma Split_snoc_other:
  "c \<noteq> sep \<Longrightarrow> Split (xs @ [c]) sep = butlast (Split xs sep) @ [last (Split xs sep) @ [c]]"
proof (induction xs)
  case Nil
  then show ?case by simp
next
  case (Cons x xs)
  obtain p ps where X: "Split xs sep = p # ps"
    using Split_not_Nil [of xs sep] by (cases "Split xs sep") auto
  obtain q qs where Y: "Split (xs @ [c]) sep = q # qs"
    using Split_not_Nil [of "xs @ [c]" sep] by (cases "Split (xs @ [c]) sep") auto
  from Cons X Y show ?case
    by (cases ps) (auto split: if_splits)
qed

lemma rev_Split: "Split (rev s) sep = rev (map rev (Split s sep))"
proof (induction s)
  case Nil
  show ?case by simp
next
  case (Cons c cs)
  obtain p ps where X: "Split cs sep = p # ps"
    using Split_not_Nil [of cs sep] by (cases "Split cs sep") auto
  show ?case
  proof (cases "c = sep")
    case True
    with Cons show ?thesis by (simp add: Split_snoc_sep)
  next
    case False
    with Cons X show ?thesis by (simp add: Split_snoc_other)
  qed
qed

lemma Split_lengths_cong:
  "map (\<lambda>c. c = sep) u = map (\<lambda>c. c = sep) v \<Longrightarrow> map length (Split u sep) = map length (Split v sep)"
proof (induction u arbitrary: v)
  case Nil
  then show ?case by simp
next
  case (Cons c u)
  then obtain d v' where v: "v = d # v'" by (cases v) auto
  with Cons.prems have h: "(c = sep) = (d = sep)" and t: "map (\<lambda>c. c = sep) u = map (\<lambda>c. c = sep) v'"
    by simp_all
  note IH = Cons.IH [OF t]
  obtain p ps where X: "Split u sep = p # ps"
    using Split_not_Nil [of u sep] by (cases "Split u sep") auto
  obtain q qs where Y: "Split v' sep = q # qs"
    using Split_not_Nil [of v' sep] by (cases "Split v' sep") auto
  from IH X Y h v show ?case by auto
qed

lemma EncodeRune_bytes:
  "length (EncodeRune r) = 1 \<or> (\<forall>c \<in> set (EncodeRune r). 128 \<le> (of_char c :: nat))"
proof -
  have m: "128 \<le> (128 + k mod 64) mod 256" for k :: nat
  proof -
    have "k mod 64 < 64" by simp
    then have "128 + k mod 64 < 256" by linarith
    then show ?thesis by simp
  qed
  have d2: "128 \<le> (192 + r div 64) mod 256" if "r \<le> 2047"
  proof -
    have "r div 64 \<le> 2047 div 64" using that by (rule div_le_mono)
    then have "192 + r div 64 < 256" by simp
    then show ?thesis by simp
  qed
  have d3: "128 \<le> (224 + r div 4096) mod 256" if "r \<le> 65535"
  proof -
    have "r div 4096 \<le> 65535 div 4096" using that by (rule div_le_mono)
    then have "224 + r div 4096 < 256" by simp
    then show ?thesis by simp
  qed
  have d4: "128 \<le> (240 + r div 262144) mod 256" if "r \<le> 1114111"
  proof -
    have "r div 262144 \<le> 1114111 div 262144" using that by (rule div_le_mono)
    then have "240 + r div 262144 < 256" by simp
    then show ?thesis by simp
  qed
  show ?thesis
    using m d2 d3 d4 by (auto simp: EncodeRune_def not_le)
qed

lemma map_eq_all_ne:
  "\<forall>c \<in> set xs. c \<noteq> x \<Longrightarrow> map (\<lambda>c. c = x) xs = replicate (length xs) False"
  by (induction xs) auto

lemma EncodeRune_is_nl:
  "map (\<lambda>c. c = nl) (rev (EncodeRune r)) = map (\<lambda>c. c = nl) (EncodeRune r)"
proof -
  from EncodeRune_bytes [of r] show ?thesis
  proof
    assume "length (EncodeRune r) = 1"
    then obtain c where "EncodeRune r = [c]" by (cases "EncodeRune r") auto
    then show ?thesis by simp
  next
    assume h: "\<forall>c \<in> set (EncodeRune r). 128 \<le> (of_char c :: nat)"
    have "c \<noteq> nl" if "c \<in> set (EncodeRune r)" for c
    proof
      assume "c = nl"
      with h that have "128 \<le> (of_char nl :: nat)" by blast
      then show False by (simp add: nl_def)
    qed
    then have ne: "\<forall>c \<in> set (EncodeRune r). c \<noteq> nl" by blast
    then have "\<forall>c \<in> set (rev (EncodeRune r)). c \<noteq> nl" by simp
    then have "map (\<lambda>c. c = nl) (rev (EncodeRune r)) = replicate (length (rev (EncodeRune r))) False"
      by (rule map_eq_all_ne)
    moreover have "map (\<lambda>c. c = nl) (EncodeRune r) = replicate (length (EncodeRune r)) False"
      using ne by (rule map_eq_all_ne)
    ultimately show ?thesis by simp
  qed
qed

lemma string_of_runes_rev_is_nl:
  "map (\<lambda>c. c = nl) (string_of_runes (rev rs)) = map (\<lambda>c. c = nl) (rev (string_of_runes rs))"
proof (induction rs)
  case Nil
  show ?case by (simp add: string_of_runes_def)
next
  case (Cons r rs)
  have "string_of_runes (rev (r # rs)) = string_of_runes (rev rs) @ EncodeRune r"
    by (simp add: string_of_runes_def)
  moreover have "rev (string_of_runes (r # rs)) = rev (string_of_runes rs) @ rev (EncodeRune r)"
    by (simp add: string_of_runes_def)
  ultimately show ?case
    using Cons EncodeRune_is_nl [of r] by simp
qed

subsection \<open>Where reading from the top ends early\<close>

text \<open>
  A file of one line: the fetch yields one line, \<open>Read\<close> buffers fetched lines only when
  there are more than one, and the first pull returns \<open>io.EOF\<close>.
\<close>

lemma drain_one_line_file:
  "drain (Suc fuel) (remote_file (file_of_lines [''a'']))
     ((new_rm ''a'' ''f'' ''e'' ''k'' [] ''stdout'' Message)\<lparr>rm_n := 10\<rparr>) 100 = Some ([], EOF)"
  by (simp add: new_rm_def Read_def refill_def read_def do_remote_file read_split_def
      file_of_lines_def nl_def chunkSize_def Pop_def Let_def)

text \<open>
  A file of three lines of 30000 bytes each, more than one chunk. The first fetch holds
  two whole lines; the offset is then set to the terminator of the second one, so the
  next fetch starts with an empty line and the third pull returns \<open>io.EOF\<close>: pulling
  until \<open>io.EOF\<close> gives two lines of three.
\<close>

lemma drain_three_long_lines:
  "drain 10 (remote_file (file_of_lines [replicate 30000 (CHR ''a''), replicate 30000 (CHR ''b''),
                                          replicate 30000 (CHR ''c'')]))
     ((new_rm ''a'' ''f'' ''e'' ''k'' [] ''stdout'' Message)\<lparr>rm_n := 10\<rparr>) 1 = Some ([''a'', ''b''], EOF)"
proof -
  define A where "A = replicate 30000 (CHR ''a'')"
  define B where "B = replicate 30000 (CHR ''b'')"
  define C where "C = replicate 30000 (CHR ''c'')"
  define F where "F = file_of_lines [A, B, C]"
  define rm where "rm = (new_rm ''a'' ''f'' ''e'' ''k'' [] ''stdout'' Message)\<lparr>rm_n := 10\<rparr>"
  define LA where "LA = \<lparr>Message = A, Offset = 0, Size = 30000\<rparr>"
  define LB where "LB = \<lparr>Message = B, Offset = 30001, Size = 30000\<rparr>"
  define rm1 where "rm1 = rm\<lparr>lines := rev [LA, LB], offset := 60001\<rparr>"
  define rmE where "rmE = rm1\<lparr>lines := [], readLines := readLines rm1 + int (length [LA, LB])\<rparr>"
  have len: "length A = 30000" "length B = 30000" "length C = 30000"
    by (simp_all add: A_def B_def C_def)
  have nonl: "nl \<notin> set A" "nl \<notin> set B" "nl \<notin> set C" "nl \<notin> set (take 5534 C)"
    by (auto simp: A_def B_def C_def nl_def dest: in_set_takeD)
  have F: "F = A @ nl # B @ nl # C @ [nl]" by (simp add: F_def file_of_lines_def)
  have t1: "take (nat chunkSize) F = A @ nl # B @ nl # take 5534 C"
    by (simp add: F len chunkSize_def)
  have t2: "take (nat chunkSize) (drop 60001 F) = nl # C @ [nl]"
    by (simp add: F len chunkSize_def)
  have s1: "Split (A @ nl # B @ nl # take 5534 C) nl = [A, B, take 5534 C]"
    using nonl by (simp add: Split_append_sep Split_no_sep)
  have s2: "Split (nl # C @ [nl]) nl = [[], C, []]"
    using nonl by (simp add: Split_append_sep)
  have s2': "Split (C @ [nl]) nl = [C, []]"
    using nonl by (simp add: Split_append_sep)
  have r1: "read (remote_file F) rm 0 chunkSize None = Inr ([LA, LB], 5534)"
    by (simp add: read_def do_remote_file t1 read_split_def s1 len LA_def LB_def)
  have st: "lines rm = []" "offset rm = 0" "readLines rm = 0" "\<not> stream rm" "rm_n rm = 10" "formatFn rm = Message"
    by (simp_all add: rm_def new_rm_def)
  have rf: "refill (remote_file F) rm = (Inr rm1, [read_request rm 0 chunkSize])"
    using st by (simp add: refill_def r1 [unfolded chunkSize_def] prepend_loop_eq len LA_def LB_def rm1_def chunkSize_def)
  have "lines rm1 \<noteq> []" by (simp add: rm1_def)
  then have d1: "drain 10 (remote_file F) rm 1 = drain 10 (remote_file F) rm1 1"
    by (rule drain_refill [OF st(1) rf])
  have msgs: "\<forall>l \<in> set [LA, LB]. Message l \<noteq> [] \<and> formatFn rm1 l \<noteq> []"
    using st by (auto simp: rm1_def LA_def LB_def A_def B_def)
  have lim: "stream rm1 \<or> readLines rm1 + int (length [LA, LB]) \<le> rm_n rm1"
    using st by (simp add: rm1_def)
  have d2: "drain (length [LA, LB] + Suc 7) (remote_file F) rm1 1
           = (case drain (Suc 7) (remote_file F) rmE 1 of
                None \<Rightarrow> None
              | Some (ss, err) \<Rightarrow> Some (map (\<lambda>l. take 1 (formatFn rm1 l)) [LA, LB] @ ss, err))"
    unfolding rmE_def by (rule drain_buffer [OF _ msgs lim]) (simp add: rm1_def)
  have stE: "lines rmE = []" "offset rmE = 60001" "\<not> stream rmE" "readLines rmE = 2" "rm_n rmE = 10"
    using st by (simp_all add: rmE_def rm1_def)
  have r2: "read (remote_file F) rmE 60001 chunkSize None
              = Inr ([\<lparr>Message = [], Offset = 60001, Size = 0\<rparr>, \<lparr>Message = C, Offset = 60002, Size = 30000\<rparr>], 0)"
    by (simp add: read_def do_remote_file t2 read_split_def s2 s2' len Let_def)
  have "fst (Read (remote_file F) rmE 1) = Inl EOF"
    using stE by (simp add: Read_def refill_def r2 [unfolded chunkSize_def] prepend_loop_eq Pop_eq chunkSize_def)
  then obtain r q where "Read (remote_file F) rmE 1 = (Inl EOF, r, q)"
    by (cases "Read (remote_file F) rmE 1") auto
  then have d3: "drain (Suc 7) (remote_file F) rmE 1 = Some ([], EOF)"
    by (simp only: drain.simps prod.case sum.case)
  have ten: "(10 :: nat) = length [LA, LB] + Suc 7" by simp
  have "drain 10 (remote_file F) rm 1 = drain (length [LA, LB] + Suc 7) (remote_file F) rm1 1"
    using d1 by (simp only: ten [symmetric])
  also have "\<dots> = Some (map (\<lambda>l. take 1 (formatFn rm1 l)) [LA, LB] @ [], EOF)"
    by (simp only: d2 d3 option.case prod.case)
  also have "\<dots> = Some ([''a'', ''b''], EOF)"
    using st by (simp add: rm1_def LA_def LB_def A_def B_def)
  finally show ?thesis
    by (simp add: F_def A_def B_def C_def rm_def)
qed

section \<open>Theorems\<close>

subsection \<open>C1: the initial offset of a reader built from the bottom\<close>

text \<open>
  C1 (as amended): for every remote file of at most \<open>chunkSize\<close> bytes and every tail
  count, constructing a reader with direction \<open>BottomToTop\<close> sets the initial offset to 0,
  after the size probe alone. For the file of the four lines \<open>a\<close>, \<open>b\<close>, \<open>c\<close>, \<open>d\<close> and a
  tail count of 2 the offset is 0.
\<close>

theorem C1_small_file_offset:
  assumes "a \<noteq> []" and "f \<noteq> []" and "e \<noteq> []" and "k \<noteq> []"
    and "apply_opts opts (new_rm a f e k tp fname fmt) = Inr rm1"
    and "readDirection rm1 = BottomToTop"
    and "int (length content) \<le> chunkSize"
  shows "NewLineReader (remote_file content) a f e k tp fname fmt opts
           = (Inr (rm1\<lparr>offset := 0\<rparr>), [fileLen_request rm1])"
  using assms
  by (simp add: NewLineReader_def notEmpty_coordinates locate_def fileLen_remote_file
      locate_loop.simps)

text \<open>
  C1 as stated fails on its own example: the file has 8 bytes, the first probe offset
  \<open>8 - chunkSize\<close> is below 1, and the reader starts at offset 0, while line 3 of 4 (the
  line \<open>c\<close>) starts at byte 4.
\<close>

theorem C1_counterexample:
  "map_sum (\<lambda>err. err) offset
     (fst (NewLineReader (remote_file (file_of_lines [''a'', ''b'', ''c'', ''d'']))
            ''a'' ''f'' ''e'' ''k'' [] ''stdout'' Message
            (options_of [Direction BottomToTop, Lines 2]))) = Inr 0
   \<and> line_start [''a'', ''b'', ''c'', ''d''] (4 - 2 + 1) = 4"
  by (simp add: NewLineReader_def notEmpty_coordinates locate_def fileLen_remote_file
      locate_loop.simps options_of_def OptReadDirection_def OptLines_def chunkSize_def
      file_of_lines_def line_start_def)

theorem C1_small_file_offset_witness:
  "NewLineReader (remote_file (file_of_lines [''a'', ''b'', ''c'', ''d''])) ''a'' ''f'' ''e'' ''k'' [] ''stdout'' Message
          (options_of [Direction BottomToTop, Lines 2])
     = (Inr ((new_rm ''a'' ''f'' ''e'' ''k'' [] ''stdout'' Message)\<lparr>readDirection := BottomToTop, rm_n := 2, offset := 0\<rparr>),
        [fileLen_request ((new_rm ''a'' ''f'' ''e'' ''k'' [] ''stdout'' Message)\<lparr>readDirection := BottomToTop, rm_n := 2\<rparr>)])"
proof -
  let ?rm1 = "(new_rm ''a'' ''f'' ''e'' ''k'' [] ''stdout'' Message)\<lparr>readDirection := BottomToTop, rm_n := 2\<rparr>"
  have o: "apply_opts (options_of [Direction BottomToTop, Lines 2]) (new_rm ''a'' ''f'' ''e'' ''k'' [] ''stdout'' Message)
             = Inr ?rm1"
    by (simp add: options_of_def OptReadDirection_def OptLines_def)
  have d: "readDirection ?rm1 = BottomToTop" by simp
  have s: "int (length (file_of_lines [''a'', ''b'', ''c'', ''d''])) \<le> chunkSize"
    by (simp add: file_of_lines_def chunkSize_def)
  have "NewLineReader (remote_file (file_of_lines [''a'', ''b'', ''c'', ''d''])) ''a'' ''f'' ''e'' ''k'' [] ''stdout'' Message
          (options_of [Direction BottomToTop, Lines 2]) = (Inr (?rm1\<lparr>offset := 0\<rparr>), [fileLen_request ?rm1])"
    by (rule C1_small_file_offset [OF _ _ _ _ o d s]) simp_all
  then show ?thesis by simp
qed

subsection \<open>C2: splitting a chunk and putting it together again\<close>

text \<open>
  C2 (as amended): for every chunk that contains at least one terminator, \<open>read\<close> yields
  lines and a trailing-partial length such that the messages, each followed by one
  terminator, followed by the last \<open>delta\<close> bytes of the chunk, are the chunk again; the
  fragment held back and the messages contain no terminator, so the unterminated final
  fragment is not among the lines. A chunk without any terminator is returned whole as
  one line with trailing-partial length 0.
\<close>

theorem C2_read_rejoin:
  assumes "do c (read_request rm off len) = Inr resp"
  shows "(nl \<in> set (Data resp) \<longrightarrow>
            (\<exists>ls delta. read c rm off len None = Inr (ls, delta)
               \<and> rejoin (ls, delta) (Data resp) = Data resp
               \<and> 0 \<le> delta \<and> nat delta \<le> length (Data resp)
               \<and> nl \<notin> set (drop (length (Data resp) - nat delta) (Data resp))
               \<and> (\<forall>l \<in> set ls. nl \<notin> set (Message l))))
       \<and> (nl \<notin> set (Data resp) \<longrightarrow>
            read c rm off len None
              = Inr ([\<lparr>Message = Data resp, Offset = off, Size = int (length (Data resp))\<rparr>], 0))"
proof (intro conjI impI)
  assume n: "nl \<notin> set (Data resp)"
  show "read c rm off len None
          = Inr ([\<lparr>Message = Data resp, Offset = off, Size = int (length (Data resp))\<rparr>], 0)"
    using assms n by (simp add: read_def read_split_no_nl)
next
  assume y: "nl \<in> set (Data resp)"
  let ?d = "Data resp"
  let ?ps = "Split ?d nl"
  let ?ls = "linesWithOffset (butlast ?ps) off 0"
  let ?delta = "int (length (last ?ps))"
  have rd: "read c rm off len None = Inr (?ls, ?delta)"
    using assms y by (simp add: read_def read_split_parts)
  have rj: "rejoin (?ls, ?delta) ?d = ?d"
    using read_split_rejoin [OF y, of off] by (simp add: read_split_parts [OF y])
  have eq: "concat (map (\<lambda>p. p @ [nl]) (butlast ?ps)) @ last ?ps = ?d"
    by (rule Split_rejoin)
  have len: "length ?d = length (concat (map (\<lambda>p. p @ [nl]) (butlast ?ps))) + length (last ?ps)"
    using arg_cong [OF eq, of length] by simp
  then have le: "length (last ?ps) \<le> length ?d" by simp
  have dr: "drop (length ?d - length (last ?ps)) ?d = last ?ps"
    using eq len by (metis add_diff_cancel_right' append_eq_conv_conj)
  have "last ?ps \<in> set ?ps"
    using Split_not_Nil [of ?d nl] by simp
  then have frag: "nl \<notin> set (last ?ps)"
    by (rule Split_pieces_no_sep)
  have msgs: "\<forall>l \<in> set ?ls. nl \<notin> set (Message l)"
  proof
    fix l assume "l \<in> set ?ls"
    then have "Message l \<in> set (map Message ?ls)" by simp
    then have "Message l \<in> set (butlast ?ps)" by (simp only: map_Message_linesWithOffset)
    then have "Message l \<in> set ?ps" by (rule in_set_butlastD)
    then show "nl \<notin> set (Message l)" by (rule Split_pieces_no_sep)
  qed
  show "\<exists>ls delta. read c rm off len None = Inr (ls, delta)
               \<and> rejoin (ls, delta) (Data resp) = Data resp
               \<and> 0 \<le> delta \<and> nat delta \<le> length (Data resp)
               \<and> nl \<notin> set (drop (length (Data resp) - nat delta) (Data resp))
               \<and> (\<forall>l \<in> set ls. nl \<notin> set (Message l))"
    using rd rj le dr frag msgs by (intro exI [of _ ?ls] exI [of _ ?delta]) simp
qed

text \<open>
  C2 as stated fails on a chunk without terminator: \<open>abc\<close> is emitted as a line with
  trailing-partial length 0, and putting the split together gives \<open>abc\<close> and a
  terminator, not \<open>abc\<close>.
\<close>

theorem C2_counterexample:
  "read (remote_file ''abc'') (new_rm ''a'' ''f'' ''e'' ''c'' [] ''stdout'' Message) 0 chunkSize None
     = Inr ([\<lparr>Message = ''abc'', Offset = 0, Size = 3\<rparr>], 0)
   \<and> rejoin ([\<lparr>Message = ''abc'', Offset = 0, Size = 3\<rparr>], 0) ''abc'' \<noteq> ''abc''"
  by (simp add: read_def do_remote_file chunkSize_def read_split_def nl_def rejoin_def)

theorem C2_read_rejoin_witness:
  "read (remote_file (''ab'' @ [nl] @ ''cd'')) (new_rm ''a'' ''f'' ''e'' ''c'' [] ''stdout'' Message) 0 chunkSize None
       = Inr ([\<lparr>Message = ''ab'', Offset = 0, Size = 2\<rparr>], 2)
   \<and> rejoin ([\<lparr>Message = ''ab'', Offset = 0, Size = 2\<rparr>], 2) (''ab'' @ [nl] @ ''cd'') = ''ab'' @ [nl] @ ''cd''
   \<and> read (remote_file ''abc'') (new_rm ''a'' ''f'' ''e'' ''c'' [] ''stdout'' Message) 0 chunkSize None
       = Inr ([\<lparr>Message = ''abc'', Offset = 0, Size = 3\<rparr>], 0)"
proof -
  let ?rm = "new_rm ''a'' ''f'' ''e'' ''c'' [] ''stdout'' Message"
  have d1: "do (remote_file (''ab'' @ [nl] @ ''cd'')) (read_request ?rm 0 chunkSize)
              = Inr \<lparr>Data = ''ab'' @ [nl] @ ''cd'', RespOffset = 0\<rparr>"
    by (simp add: do_remote_file chunkSize_def)
  have d2: "do (remote_file ''abc'') (read_request ?rm 0 chunkSize) = Inr \<lparr>Data = ''abc'', RespOffset = 0\<rparr>"
    by (simp add: do_remote_file chunkSize_def)
  have r1: "read (remote_file (''ab'' @ [nl] @ ''cd'')) ?rm 0 chunkSize None
       = Inr ([\<lparr>Message = ''ab'', Offset = 0, Size = 2\<rparr>], 2)"
    unfolding read_def d1 by (simp add: read_split_def nl_def)
  from C2_read_rejoin [OF d1] obtain ls delta
    where "read (remote_file (''ab'' @ [nl] @ ''cd'')) ?rm 0 chunkSize None = Inr (ls, delta)"
      and "rejoin (ls, delta) (''ab'' @ [nl] @ ''cd'') = ''ab'' @ [nl] @ ''cd''"
    by auto
  with r1 have "rejoin ([\<lparr>Message = ''ab'', Offset = 0, Size = 2\<rparr>], 2) (''ab'' @ [nl] @ ''cd'') = ''ab'' @ [nl] @ ''cd''"
    by simp
  moreover have "read (remote_file ''abc'') ?rm 0 chunkSize None
       = Inr ([\<lparr>Message = ''abc'', Offset = 0, Size = 3\<rparr>], 0)"
    using C2_read_rejoin [OF d2] by (simp add: nl_def)
  ultimately show ?thesis
    using r1 by simp
qed

subsection \<open>C3: reading a file from the top\<close>

text \<open>
  C3 (as amended): for a remote file of at least two lines, all non-empty and each
  ended by a terminator, of at most \<open>chunkSize\<close> bytes in all, a fresh reader at offset 0
  with no effective line limit (streaming, or a limit not below the number of lines) and
  a formatter that never returns the empty string, when pulled until the first error,
  emits the encoding of every line of the file exactly once and in order (as much of
  each as fits the buffer), and the pull after the last line returns \<open>io.EOF\<close>. Any fuel
  above the number of lines is enough.
\<close>

theorem C3_small_file_in_order:
  assumes "2 \<le> length ls" and "\<forall>l \<in> set ls. l \<noteq> [] \<and> nl \<notin> set l"
    and "int (length (file_of_lines ls)) \<le> chunkSize"
    and "\<forall>l. formatFn rm l \<noteq> []"
    and "lines rm = []" and "offset rm = 0" and "readLines rm = 0"
    and "stream rm \<or> int (length ls) \<le> rm_n rm"
    and "length ls < fuel"
  shows "drain fuel (remote_file (file_of_lines ls)) rm blen
           = Some (map (\<lambda>l. take blen (formatFn rm l)) (linesWithOffset ls 0 0), EOF)"
proof -
  let ?c = "remote_file (file_of_lines ls)"
  let ?LS = "linesWithOffset ls 0 0"
  let ?rm1 = "rm\<lparr>lines := rev ?LS, offset := int (length (file_of_lines ls)) - 1\<rparr>"
  let ?rmE = "?rm1\<lparr>lines := [], readLines := readLines ?rm1 + int (length ?LS)\<rparr>"
  obtain fuel' where fuel: "fuel = length ?LS + Suc fuel'"
    using assms(9) by (metis add_Suc_right length_linesWithOffset less_iff_Suc_add)
  have ne: "ls \<noteq> []" using assms(1) by auto
  have nonl: "\<forall>l \<in> set ls. nl \<notin> set l" using assms(2) by simp
  have rf: "refill ?c rm = (Inr ?rm1, [read_request rm 0 chunkSize])"
    by (rule refill_small_file [OF assms(1) nonl assms(3) assms(5) assms(6)])
  have ne1: "lines ?rm1 \<noteq> []" using ne by (cases ls) simp_all
  have d1: "drain fuel ?c rm blen = drain fuel ?c ?rm1 blen"
    by (rule drain_refill [OF assms(5) rf ne1])
  have msgs: "\<forall>l \<in> set ?LS. Message l \<noteq> [] \<and> formatFn ?rm1 l \<noteq> []"
  proof
    fix l assume "l \<in> set ?LS"
    then have "Message l \<in> set (map Message ?LS)" by simp
    then have "Message l \<in> set ls" by (simp only: map_Message_linesWithOffset)
    with assms(2,4) show "Message l \<noteq> [] \<and> formatFn ?rm1 l \<noteq> []" by simp
  qed
  have lim: "stream ?rm1 \<or> readLines ?rm1 + int (length ?LS) \<le> rm_n ?rm1"
    using assms(7,8) by (simp add: length_linesWithOffset)
  have d2: "drain (length ?LS + Suc fuel') ?c ?rm1 blen
           = (case drain (Suc fuel') ?c ?rmE blen of
                None \<Rightarrow> None
              | Some (ss, err) \<Rightarrow> Some (map (\<lambda>l. take blen (formatFn ?rm1 l)) ?LS @ ss, err))"
    by (rule drain_buffer [OF _ msgs lim]) simp
  have "fst (Read ?c ?rmE blen) = Inl EOF"
    by (rule Read_at_end [OF ne]) simp_all
  then have d3: "drain (Suc fuel') ?c ?rmE blen = Some ([], EOF)"
    by (simp add: case_prod_unfold split: sum.splits)
  have "drain fuel ?c rm blen = drain (length ?LS + Suc fuel') ?c ?rm1 blen"
    using d1 by (simp only: fuel)
  also have "\<dots> = Some (map (\<lambda>l. take blen (formatFn ?rm1 l)) ?LS @ [], EOF)"
    by (simp only: d2 d3 option.case prod.case)
  finally show ?thesis by simp
qed

text \<open>
  C3 as stated fails on a file with an empty line: for the three lines \<open>a\<close>, the empty
  line and \<open>b\<close>, a reader built from the top with a limit of 10 lines returns \<open>a\<close>, then
  \<open>io.EOF\<close> for the empty line; a consumer that pulls until \<open>io.EOF\<close> has received one
  line of three.
\<close>

theorem C3_counterexample:
  "fst (NewLineReader (remote_file (file_of_lines [''a'', [], ''b''])) ''a'' ''f'' ''e'' ''k'' [] ''stdout''
          (\<lambda>l. Message l @ [nl]) (options_of [Direction TopToBottom, Lines 10]))
     = Inr ((new_rm ''a'' ''f'' ''e'' ''k'' [] ''stdout'' (\<lambda>l. Message l @ [nl]))\<lparr>readDirection := TopToBottom, rm_n := 10\<rparr>)
   \<and> drain 10 (remote_file (file_of_lines [''a'', [], ''b'']))
        ((new_rm ''a'' ''f'' ''e'' ''k'' [] ''stdout'' (\<lambda>l. Message l @ [nl]))\<lparr>readDirection := TopToBottom, rm_n := 10\<rparr>) 100
     = Some ([''a'' @ [nl]], EOF)
   \<and> map (\<lambda>l. Message l @ [nl]) (linesWithOffset [''a'', [], ''b''] 0 0) = [''a'' @ [nl], [nl], ''b'' @ [nl]]"
proof -
  have n: "(10 :: nat) = Suc (Suc (Suc (Suc (Suc (Suc (Suc (Suc (Suc (Suc 0)))))))))" by simp
  show ?thesis
    unfolding n
    by (simp add: NewLineReader_def notEmpty_coordinates options_of_def OptReadDirection_def OptLines_def
        locate_def new_rm_def Read_def refill_def read_def do_remote_file read_split_def
        file_of_lines_def nl_def chunkSize_def prepend_loop_eq Pop_def Reader_Read_def Let_def)
qed

theorem C3_small_file_in_order_witness:
  "drain 3 (remote_file (file_of_lines [''a'', ''b'']))
        ((new_rm ''a'' ''f'' ''e'' ''k'' [] ''stdout'' (\<lambda>l. Message l @ [nl]))\<lparr>rm_n := 10\<rparr>) 100
     = Some ([''a'' @ [nl], ''b'' @ [nl]], EOF)"
proof -
  let ?rm = "(new_rm ''a'' ''f'' ''e'' ''k'' [] ''stdout'' (\<lambda>l. Message l @ [nl]))\<lparr>rm_n := 10\<rparr>"
  have h1: "2 \<le> length [''a'', ''b'']" by simp
  have h2: "\<forall>l \<in> set [''a'', ''b'']. l \<noteq> [] \<and> nl \<notin> set l" by (simp add: nl_def)
  have h3: "int (length (file_of_lines [''a'', ''b''])) \<le> chunkSize"
    by (simp add: file_of_lines_def chunkSize_def)
  have h4: "\<forall>l. formatFn ?rm l \<noteq> []" by (simp add: new_rm_def)
  have h5: "lines ?rm = []" and h6: "offset ?rm = 0" and h7: "readLines ?rm = 0"
    by (simp_all add: new_rm_def)
  have h8: "stream ?rm \<or> int (length [''a'', ''b'']) \<le> rm_n ?rm" by simp
  have h9: "length [''a'', ''b''] < 3" by simp
  from C3_small_file_in_order [OF h1 h2 h3 h4 h5 h6 h7 h8 h9, of 100]
  show ?thesis by (simp add: new_rm_def)
qed

subsection \<open>C4: the line limit in non-streaming mode\<close>

text \<open>
  C4: in non-streaming mode, for every sequence of pulls on a fresh reader with line
  limit \<open>rm_n rm\<close>: the emitted-line counter never exceeds the limit; at most that many
  pulls succeed, and each successful pull returns the encoding of a line (the part of it
  that fits the caller's buffer); once as many pulls as the limit have succeeded, every
  later pull returns \<open>io.EOF\<close> at once, sending no request and leaving the reader as it
  is, whatever the remote file holds.
\<close>

theorem C4_line_limit:
  assumes "\<not> stream rm" and "readLines rm = 0" and "0 \<le> rm_n rm"
    and "pulls c rm blens = (ress, rm', reqs)"
  shows "readLines rm' \<le> rm_n rm
       \<and> int (length (filter (\<lambda>r. \<not> isl r) ress)) \<le> readLines rm'
       \<and> (\<forall>s. Inr s \<in> set ress \<longrightarrow> (\<exists>l blen. Message l \<noteq> [] \<and> s = take blen (formatFn rm l)))
       \<and> (int (length (filter (\<lambda>r. \<not> isl r) ress)) = rm_n rm
            \<longrightarrow> (\<forall>more. pulls c rm' more = (replicate (length more) (Inl EOF), rm', [])))"
proof -
  have le: "readLines rm \<le> rm_n rm" using assms(2,3) by simp
  note pc = pulls_counter [OF assms(4) assms(1) le]
  have cnt: "int (length (filter (\<lambda>r. \<not> isl r) ress)) \<le> readLines rm'"
    using pc assms(2) by simp
  have "pulls c rm' more = (replicate (length more) (Inl EOF), rm', [])"
    if "int (length (filter (\<lambda>r. \<not> isl r) ress)) = rm_n rm" for more
  proof -
    from that cnt pc have "readLines rm' = rm_n rm'" by simp
    moreover have "\<not> stream rm'" using pc by simp
    ultimately show ?thesis by (rule pulls_at_limit [rotated])
  qed
  with pc cnt show ?thesis by blast
qed

theorem C4_line_limit_witness:
  "fst (pulls (remote_file (file_of_lines [''a'', ''b'', ''c'']))
         ((new_rm ''a'' ''f'' ''e'' ''k'' [] ''stdout'' (\<lambda>l. Message l @ [nl]))\<lparr>rm_n := 2\<rparr>) [10, 10, 10])
     = [Inr (''a'' @ [nl]), Inr (''b'' @ [nl]), Inl EOF]
   \<and> readLines (fst (snd (pulls (remote_file (file_of_lines [''a'', ''b'', ''c'']))
         ((new_rm ''a'' ''f'' ''e'' ''k'' [] ''stdout'' (\<lambda>l. Message l @ [nl]))\<lparr>rm_n := 2\<rparr>) [10, 10, 10]))) \<le> 2
   \<and> pulls (remote_file (file_of_lines [''a'', ''b'', ''c'']))
         (fst (snd (pulls (remote_file (file_of_lines [''a'', ''b'', ''c'']))
            ((new_rm ''a'' ''f'' ''e'' ''k'' [] ''stdout'' (\<lambda>l. Message l @ [nl]))\<lparr>rm_n := 2\<rparr>) [10, 10, 10]))) [7, 7]
     = ([Inl EOF, Inl EOF],
        fst (snd (pulls (remote_file (file_of_lines [''a'', ''b'', ''c'']))
            ((new_rm ''a'' ''f'' ''e'' ''k'' [] ''stdout'' (\<lambda>l. Message l @ [nl]))\<lparr>rm_n := 2\<rparr>) [10, 10, 10])), [])"
proof -
  let ?c = "remote_file (file_of_lines [''a'', ''b'', ''c''])"
  let ?rm = "(new_rm ''a'' ''f'' ''e'' ''k'' [] ''stdout'' (\<lambda>l. Message l @ [nl]))\<lparr>rm_n := 2\<rparr>"
  let ?P = "pulls ?c ?rm [10, 10, 10]"
  have h1: "\<not> stream ?rm" by (simp add: new_rm_def)
  have h2: "readLines ?rm = 0" by (simp add: new_rm_def)
  have h3: "0 \<le> rm_n ?rm" by simp
  have h4: "?P = (fst ?P, fst (snd ?P), snd (snd ?P))" by simp
  have res: "fst ?P = [Inr (''a'' @ [nl]), Inr (''b'' @ [nl]), Inl EOF]"
    by (simp add: new_rm_def Read_def refill_def read_def do_remote_file read_split_def
        file_of_lines_def nl_def chunkSize_def prepend_loop_eq Pop_def Reader_Read_def Let_def)
  note C = C4_line_limit [OF h1 h2 h3 h4]
  have "int (length (filter (\<lambda>r. \<not> isl r) (fst ?P))) = rm_n ?rm"
    unfolding res by simp
  with C have "pulls ?c (fst (snd ?P)) [7, 7] = (replicate (length [7, 7 :: nat]) (Inl EOF), fst (snd ?P), [])"
    by blast
  with C res show ?thesis by simp
qed

subsection \<open>C5: end of data in streaming mode\<close>

text \<open>
  C5 (as amended): in streaming mode the outcome of a pull does not depend on the line
  limit or on the emitted count, so no pull returns \<open>io.EOF\<close> because of the limit. A
  streaming pull returns \<open>io.EOF\<close> exactly when the fetch itself failed with it, or, after
  the refill of an empty buffer, the buffer is still empty, or the line popped has an
  empty message, or its encoding is empty. A pull whose refill fetch yields at least two
  lines, the first with a non-empty message and a non-empty encoding, returns that line
  (as much of it as fits the buffer).
\<close>

theorem C5_streaming_eof:
  assumes "stream rm"
  shows "fst (Read c (rm\<lparr>rm_n := a, readLines := b\<rparr>) blen) = fst (Read c rm blen)
       \<and> (fst (Read c rm blen) = Inl EOF \<longleftrightarrow>
            (\<exists>reqs. refill c rm = (Inl EOF, reqs))
            \<or> (\<exists>rm1 reqs. refill c rm = (Inr rm1, reqs)
                  \<and> (lines rm1 = [] \<or> Message (last (lines rm1)) = []
                       \<or> formatFn rm (last (lines rm1)) = [])))
       \<and> (lines rm = [] \<and> read c rm (offset rm) chunkSize None = Inr (l1 # l2 # ls, delta)
            \<and> Message l1 \<noteq> [] \<and> formatFn rm l1 \<noteq> []
            \<longrightarrow> fst (Read c rm blen) = Inr (take blen (formatFn rm l1)))"
proof (intro conjI)
  show "fst (Read c (rm\<lparr>rm_n := a, readLines := b\<rparr>) blen) = fst (Read c rm blen)"
    using assms by (rule Read_stream_counters)
next
  show "fst (Read c rm blen) = Inl EOF \<longleftrightarrow>
            (\<exists>reqs. refill c rm = (Inl EOF, reqs))
            \<or> (\<exists>rm1 reqs. refill c rm = (Inr rm1, reqs)
                  \<and> (lines rm1 = [] \<or> Message (last (lines rm1)) = []
                       \<or> formatFn rm (last (lines rm1)) = []))"
  proof (cases "refill c rm")
    case (Pair r reqs)
    then show ?thesis
      by (cases r) (auto simp: Read_stream_eq [OF assms] Reader_Read_def)
  qed
next
  show "lines rm = [] \<and> read c rm (offset rm) chunkSize None = Inr (l1 # l2 # ls, delta)
            \<and> Message l1 \<noteq> [] \<and> formatFn rm l1 \<noteq> []
            \<longrightarrow> fst (Read c rm blen) = Inr (take blen (formatFn rm l1))"
  proof
    assume h: "lines rm = [] \<and> read c rm (offset rm) chunkSize None = Inr (l1 # l2 # ls, delta)
            \<and> Message l1 \<noteq> [] \<and> formatFn rm l1 \<noteq> []"
    then obtain rm1 reqs where "refill c rm = (Inr rm1, reqs)" and "lines rm1 = rev ls @ [l2, l1]"
      using refill_two_lines [of rm c l1 l2 ls delta] by blast
    with h show "fst (Read c rm blen) = Inr (take blen (formatFn rm l1))"
      by (simp add: Read_stream_eq [OF assms] Reader_Read_def)
  qed
qed

text \<open>
  C5 as stated fails when the file starts with an empty line: the refill fetch of a
  streaming reader yields two lines, and the pull returns \<open>io.EOF\<close>.
\<close>

theorem C5_counterexample:
  "read (remote_file (file_of_lines [[], ''a'']))
        ((new_rm ''a'' ''f'' ''e'' ''k'' [] ''stdout'' (\<lambda>l. Message l @ [nl]))\<lparr>stream := True\<rparr>) 0 chunkSize None
     = Inr ([\<lparr>Message = [], Offset = 0, Size = 0\<rparr>, \<lparr>Message = ''a'', Offset = 1, Size = 1\<rparr>], 0)
   \<and> stream ((new_rm ''a'' ''f'' ''e'' ''k'' [] ''stdout'' (\<lambda>l. Message l @ [nl]))\<lparr>stream := True\<rparr>)
   \<and> lines ((new_rm ''a'' ''f'' ''e'' ''k'' [] ''stdout'' (\<lambda>l. Message l @ [nl]))\<lparr>stream := True\<rparr>) = []
   \<and> offset ((new_rm ''a'' ''f'' ''e'' ''k'' [] ''stdout'' (\<lambda>l. Message l @ [nl]))\<lparr>stream := True\<rparr>) = 0
   \<and> fst (Read (remote_file (file_of_lines [[], ''a'']))
             ((new_rm ''a'' ''f'' ''e'' ''k'' [] ''stdout'' (\<lambda>l. Message l @ [nl]))\<lparr>stream := True\<rparr>) 10)
     = Inl EOF"
  by (simp add: new_rm_def Read_def refill_def read_def do_remote_file read_split_def
        file_of_lines_def nl_def chunkSize_def prepend_loop_eq Pop_def Let_def)

theorem C5_streaming_eof_witness:
  "stream ((new_rm ''a'' ''f'' ''e'' ''k'' [] ''stdout'' (\<lambda>l. Message l @ [nl]))\<lparr>stream := True\<rparr>)
   \<and> fst (Read (remote_file (file_of_lines [''a'', ''b'']))
             ((new_rm ''a'' ''f'' ''e'' ''k'' [] ''stdout'' (\<lambda>l. Message l @ [nl]))\<lparr>stream := True\<rparr>) 10)
       = Inr (''a'' @ [nl])
   \<and> fst (Read (remote_file (file_of_lines [''a'', ''b'']))
             ((new_rm ''a'' ''f'' ''e'' ''k'' [] ''stdout'' (\<lambda>l. Message l @ [nl]))\<lparr>stream := True, rm_n := 0, readLines := 0\<rparr>) 10)
       = Inr (''a'' @ [nl])"
proof -
  let ?c = "remote_file (file_of_lines [''a'', ''b''])"
  let ?rm = "(new_rm ''a'' ''f'' ''e'' ''k'' [] ''stdout'' (\<lambda>l. Message l @ [nl]))\<lparr>stream := True\<rparr>"
  let ?l1 = "\<lparr>Message = ''a'', Offset = 0, Size = 1\<rparr>"
  let ?l2 = "\<lparr>Message = ''b'', Offset = 2, Size = 1\<rparr>"
  have h: "stream ?rm" by simp
  have b: "lines ?rm = []" by (simp add: new_rm_def)
  have r: "read ?c ?rm (offset ?rm) chunkSize None = Inr (?l1 # ?l2 # [], 0)"
    by (simp add: new_rm_def read_def do_remote_file read_split_def file_of_lines_def nl_def chunkSize_def)
  have m: "Message ?l1 \<noteq> []" by simp
  have f: "formatFn ?rm ?l1 \<noteq> []" by (simp add: new_rm_def)
  note C = C5_streaming_eof [OF h, where c = ?c and blen = 10 and ?l1.0 = ?l1 and ?l2.0 = ?l2
      and ls = "[]" and delta = 0 and a = 0 and b = 0]
  from C b r m f have 1: "fst (Read ?c ?rm 10) = Inr (take 10 (formatFn ?rm ?l1))"
    by blast
  from C have 2: "fst (Read ?c (?rm\<lparr>rm_n := 0, readLines := 0\<rparr>) 10) = fst (Read ?c ?rm 10)"
    by blast
  from 1 2 h show ?thesis by (simp add: new_rm_def)
qed

subsection \<open>C6: errors of the construction\<close>

text \<open>
  C6: construction returns an error, and no reader, exactly when a required coordinate
  is empty, or an option rejects its input, or a request of the backward search fails;
  the first two fail before any request is sent, and the task path may be empty. Of the
  options of the spec's configuration only a line limit \<open>\<le> 0\<close> is rejected.
\<close>

theorem C6_construction_errors:
  "((\<exists>err. fst (NewLineReader c a f e k tp fname fmt opts) = Inl err)
      \<longleftrightarrow> (a = [] \<or> f = [] \<or> e = [] \<or> k = []
           \<or> (\<exists>err. apply_opts opts (new_rm a f e k tp fname fmt) = Inl err)
           \<or> (\<exists>req \<in> set (snd (NewLineReader c a f e k tp fname fmt opts)). \<exists>err. do c req = Inl err)))
   \<and> (a = [] \<or> f = [] \<or> e = [] \<or> k = []
        \<longrightarrow> NewLineReader c a f e k tp fname fmt opts = (Inl ErrEmptyParam, []))
   \<and> ((\<exists>err. apply_opts (options_of cfg) (new_rm a f e k tp fname fmt) = Inl err)
        \<longleftrightarrow> (\<exists>n\<le>0. Lines n \<in> set cfg))
   \<and> (a \<noteq> [] \<and> f \<noteq> [] \<and> e \<noteq> [] \<and> k \<noteq> [] \<and> (\<exists>n\<le>0. Lines n \<in> set cfg)
        \<longrightarrow> NewLineReader c a f e k tp fname fmt (options_of cfg) = (Inl ErrNonPositiveLines, []))
   \<and> ((\<exists>err. fst (NewLineReader c a f e k tp fname fmt (options_of cfg)) = Inl err)
      \<longleftrightarrow> (a = [] \<or> f = [] \<or> e = [] \<or> k = []
           \<or> (\<exists>n\<le>0. Lines n \<in> set cfg)
           \<or> (\<exists>req \<in> set (snd (NewLineReader c a f e k tp fname fmt (options_of cfg))).
                 \<exists>err. do c req = Inl err)))"
proof -
  have gen: "(\<exists>err. fst (NewLineReader c a f e k tp fname fmt os) = Inl err)
      \<longleftrightarrow> (a = [] \<or> f = [] \<or> e = [] \<or> k = []
           \<or> (\<exists>err. apply_opts os (new_rm a f e k tp fname fmt) = Inl err)
           \<or> (\<exists>req \<in> set (snd (NewLineReader c a f e k tp fname fmt os)). \<exists>err. do c req = Inl err))"
    for os
  proof (cases "a = [] \<or> f = [] \<or> e = [] \<or> k = []")
    case True
    then show ?thesis by (auto simp add: NewLineReader_def notEmpty_coordinates)
  next
    case ne: False
    show ?thesis
    proof (cases "apply_opts os (new_rm a f e k tp fname fmt)")
      case (Inl err)
      then show ?thesis using ne by (simp add: NewLineReader_def notEmpty_coordinates)
    next
      case (Inr rm)
      then show ?thesis
        using ne locate_error_iff [of c rm] by (simp add: NewLineReader_def notEmpty_coordinates)
    qed
  qed
  have empty: "a = [] \<or> f = [] \<or> e = [] \<or> k = []
        \<longrightarrow> NewLineReader c a f e k tp fname fmt opts = (Inl ErrEmptyParam, [])"
    by (simp add: NewLineReader_def notEmpty_coordinates)
  have lim: "(\<exists>err. apply_opts (options_of cfg) (new_rm a f e k tp fname fmt) = Inl err)
        \<longleftrightarrow> (\<exists>n\<le>0. Lines n \<in> set cfg)"
    by (simp add: apply_opts_options_of)
  have bad: "a \<noteq> [] \<and> f \<noteq> [] \<and> e \<noteq> [] \<and> k \<noteq> [] \<and> (\<exists>n\<le>0. Lines n \<in> set cfg)
        \<longrightarrow> NewLineReader c a f e k tp fname fmt (options_of cfg) = (Inl ErrNonPositiveLines, [])"
  proof
    assume h: "a \<noteq> [] \<and> f \<noteq> [] \<and> e \<noteq> [] \<and> k \<noteq> [] \<and> (\<exists>n\<le>0. Lines n \<in> set cfg)"
    then have "apply_opts (options_of cfg) (new_rm a f e k tp fname fmt) = Inl ErrNonPositiveLines"
      by (simp add: apply_opts_options_of)
    with h show "NewLineReader c a f e k tp fname fmt (options_of cfg) = (Inl ErrNonPositiveLines, [])"
      by (simp add: NewLineReader_def notEmpty_coordinates)
  qed
  have spec: "(\<exists>err. fst (NewLineReader c a f e k tp fname fmt (options_of cfg)) = Inl err)
      \<longleftrightarrow> (a = [] \<or> f = [] \<or> e = [] \<or> k = []
           \<or> (\<exists>n\<le>0. Lines n \<in> set cfg)
           \<or> (\<exists>req \<in> set (snd (NewLineReader c a f e k tp fname fmt (options_of cfg))).
                 \<exists>err. do c req = Inl err))"
    using gen [of "options_of cfg"] by (simp only: lim)
  from gen [of opts] empty lim bad spec show ?thesis
    by (intro conjI)
qed

theorem C6_construction_errors_witness:
  "NewLineReader (remote_file ''x'') [] ''f'' ''e'' ''k'' [] ''stdout'' Message (options_of [Lines 2])
     = (Inl ErrEmptyParam, [])
   \<and> NewLineReader (remote_file ''x'') ''a'' ''f'' ''e'' ''k'' [] ''stdout'' Message (options_of [Direction BottomToTop, Lines 0])
     = (Inl ErrNonPositiveLines, [])
   \<and> (\<exists>err. fst (NewLineReader (\<lambda>req. Inl TransportError) ''a'' ''f'' ''e'' ''k'' [] ''stdout'' Message
                    (options_of [Direction BottomToTop, Lines 2])) = Inl err)
   \<and> (\<exists>rm. fst (NewLineReader (remote_file ''x'') ''a'' ''f'' ''e'' ''k'' [] ''stdout'' Message
                    (options_of [Direction BottomToTop, Lines 2])) = Inr rm)"
proof -
  let ?bad = "\<lambda>req :: request. (Inl TransportError :: error + http_response)"
  let ?opts = "options_of [Direction BottomToTop, Lines 2]"
  have tr: "snd (NewLineReader ?bad ''a'' ''f'' ''e'' ''k'' [] ''stdout'' Message ?opts)
              = [fileLen_request (new_rm ''a'' ''f'' ''e'' ''k'' [] ''stdout'' Message)]"
    by (simp add: NewLineReader_def notEmpty_coordinates options_of_def OptReadDirection_def OptLines_def
        locate_def fileLen_def do_def fileLen_request_def new_rm_def)
  have bad: "\<exists>req \<in> set (snd (NewLineReader ?bad ''a'' ''f'' ''e'' ''k'' [] ''stdout'' Message ?opts)).
               \<exists>err. do ?bad req = Inl err"
    unfolding tr by (simp add: do_def)
  have 3: "\<exists>err. fst (NewLineReader ?bad ''a'' ''f'' ''e'' ''k'' [] ''stdout'' Message ?opts) = Inl err"
    using C6_construction_errors [where a = "''a''" and f = "''f''" and e = "''e''" and k = "''k''"
        and c = ?bad and tp = "[]" and fname = "''stdout''" and fmt = Message and opts = ?opts] bad
    by blast
  have ok: "\<not> (\<exists>req \<in> set (snd (NewLineReader (remote_file ''x'') ''a'' ''f'' ''e'' ''k'' [] ''stdout'' Message ?opts)).
               \<exists>err. do (remote_file ''x'') req = Inl err)"
    by (simp add: NewLineReader_def notEmpty_coordinates options_of_def OptReadDirection_def OptLines_def
        locate_def fileLen_def do_def fileLen_request_def new_rm_def remote_file_def chunkSize_def
        locate_loop.simps)
  have opts_ok: "\<not> (\<exists>err. apply_opts ?opts (new_rm ''a'' ''f'' ''e'' ''k'' [] ''stdout'' Message) = Inl err)"
    by (simp add: options_of_def OptReadDirection_def OptLines_def)
  have "\<not> (\<exists>err. fst (NewLineReader (remote_file ''x'') ''a'' ''f'' ''e'' ''k'' [] ''stdout'' Message ?opts) = Inl err)"
    using C6_construction_errors [where a = "''a''" and f = "''f''" and e = "''e''" and k = "''k''"
        and c = "remote_file ''x''" and tp = "[]" and fname = "''stdout''" and fmt = Message and opts = ?opts]
      ok opts_ok by simp
  then have 4: "\<exists>rm. fst (NewLineReader (remote_file ''x'') ''a'' ''f'' ''e'' ''k'' [] ''stdout'' Message ?opts) = Inr rm"
    by (cases "fst (NewLineReader (remote_file ''x'') ''a'' ''f'' ''e'' ''k'' [] ''stdout'' Message ?opts)") auto
  have 1: "NewLineReader (remote_file ''x'') [] ''f'' ''e'' ''k'' [] ''stdout'' Message (options_of [Lines 2])
     = (Inl ErrEmptyParam, [])"
    using C6_construction_errors [where a = "[]" and f = "''f''" and e = "''e''" and k = "''k''"
        and c = "remote_file ''x''" and tp = "[]" and fname = "''stdout''" and fmt = Message
        and opts = "options_of [Lines 2]"]
    by simp
  have 2: "NewLineReader (remote_file ''x'') ''a'' ''f'' ''e'' ''k'' [] ''stdout'' Message (options_of [Direction BottomToTop, Lines 0])
     = (Inl ErrNonPositiveLines, [])"
    using C6_construction_errors [where a = "''a''" and f = "''f''" and e = "''e''" and k = "''k''"
        and c = "remote_file ''x''" and tp = "[]" and fname = "''stdout''" and fmt = Message
        and cfg = "[Direction BottomToTop, Lines 0]"]
    by simp
  from 1 2 3 4 show ?thesis by blast
qed

subsection \<open>C7: the range of the offset\<close>

text \<open>
  C7: the offset is to stay within \<open>0 .. fileSize\<close> during construction. The code breaks
  this. On the file of two lines \<open>x\<close> and 65535 times \<open>a\<close> (65538 bytes) with a tail
  count of 2, the first round of the backward search finds one line and sets
  \<open>rm.offset\<close> to the start of the next chunk, 1; the second round subtracts the length
  of a line of that chunk, 65536, from it: the reader is returned with offset \<open>-65535\<close>.
\<close>

theorem C7_negative_offset:
  "map_sum (\<lambda>err. err) offset
     (fst (NewLineReader (remote_file (''x'' @ [nl] @ replicate 65535 (CHR ''a'') @ [nl]))
            ''a'' ''f'' ''e'' ''k'' [] ''stdout'' Message
            (options_of [Direction BottomToTop, Lines 2]))) = Inr (- 65535)"
proof -
  define F where "F = ''x'' @ [nl] @ replicate 65535 (CHR ''a'') @ [nl]"
  define rm where "rm = (new_rm ''a'' ''f'' ''e'' ''k'' [] ''stdout'' Message)\<lparr>readDirection := BottomToTop, rm_n := 2\<rparr>"
  have a: "CHR ''a'' \<noteq> nl" "(of_char (CHR ''a'') :: nat) < 128" by (simp_all add: nl_def)
  have n: "rm_n rm = 2" and d: "readDirection rm = BottomToTop" by (simp_all add: rm_def)
  have len: "int (length F) = 65538" by (simp add: F_def)
  have d1: "take (nat chunkSize) (drop 2 F) = replicate 65535 (CHR ''a'') @ [nl]"
    by (simp add: F_def chunkSize_def)
  have d2: "take (nat chunkSize) (drop (Suc 0) F) = nl # replicate 65535 (CHR ''a'')"
    by (simp add: F_def chunkSize_def)
  have r1: "read (remote_file F) rm 2 chunkSize (Some reverse)
              = Inr ([\<lparr>Message = [], Offset = 2, Size = 0\<rparr>], 65535)"
    using read_split_reverse_tail [OF a, of 65535 2]
    by (simp add: read_def do_remote_file d1)
  have r2: "read (remote_file F) rm 1 chunkSize (Some reverse)
              = Inr ([\<lparr>Message = replicate 65535 (CHR ''a''), Offset = 1, Size = 65535\<rparr>], 0)"
    using read_split_reverse_head [OF a, of 65535 1]
    by (simp add: read_def do_remote_file d2)
  have l2: "fst (locate_loop (remote_file F) (rm\<lparr>offset := 1\<rparr>) 1 1) = Inr (rm\<lparr>offset := - 65535\<rparr>)"
    by (subst locate_loop.simps) (simp add: r2 n offset_loop.simps)
  have l1: "fst (locate_loop (remote_file F) (rm\<lparr>offset := 65538\<rparr>) 0 (65538 - chunkSize)) = Inr (rm\<lparr>offset := - 65535\<rparr>)"
    using l2 by (subst locate_loop.simps) (simp add: r1 [unfolded chunkSize_def] n chunkSize_def case_prod_unfold)
  have o: "apply_opts (options_of [Direction BottomToTop, Lines 2]) (new_rm ''a'' ''f'' ''e'' ''k'' [] ''stdout'' Message)
             = Inr rm"
    by (simp add: options_of_def OptReadDirection_def OptLines_def rm_def)
  have "fst (NewLineReader (remote_file F) ''a'' ''f'' ''e'' ''k'' [] ''stdout'' Message
            (options_of [Direction BottomToTop, Lines 2])) = Inr (rm\<lparr>offset := - 65535\<rparr>)"
    using l1
    by (simp add: NewLineReader_def notEmpty_coordinates o locate_def d fileLen_remote_file len
        case_prod_unfold)
  then show ?thesis by (simp add: F_def)
qed

subsection \<open>C8: byte lengths under the reversal\<close>

text \<open>
  C8 (as amended): \<open>reverse\<close> works on runes, and lengths are counted in bytes. For every
  chunk that is well-formed UTF-8, non-ASCII text included, the transform preserves the
  total byte length of the chunk and the byte length of each line: the lines of the
  reversed chunk have the byte lengths of the lines of the chunk, in reverse order.
\<close>

theorem C8_reverse_wellformed:
  assumes "ValidString s"
  shows "length (reverse s) = length s
       \<and> map length (Split (reverse s) nl) = rev (map length (Split s nl))"
proof -
  have rt: "string_of_runes (runes_of s) = s"
    using assms by (rule roundtrip_valid)
  have "map (\<lambda>c. c = nl) (reverse s) = map (\<lambda>c. c = nl) (rev (string_of_runes (runes_of s)))"
    unfolding reverse_eq by (rule string_of_runes_rev_is_nl)
  then have pos: "map (\<lambda>c. c = nl) (reverse s) = map (\<lambda>c. c = nl) (rev s)"
    by (simp only: rt)
  from arg_cong [OF pos, of length] have len: "length (reverse s) = length s"
    by simp
  have "map length (Split (reverse s) nl) = map length (Split (rev s) nl)"
    using pos by (rule Split_lengths_cong)
  also have "\<dots> = rev (map length (Split s nl))"
    by (simp add: rev_Split rev_map comp_def)
  finally show ?thesis using len by simp
qed

text \<open>
  C8 as stated fails on a byte that is not UTF-8: the single byte \<open>0xFF\<close> decodes to
  \<open>U+FFFD\<close>, which is written back as three bytes.
\<close>

theorem C8_counterexample:
  "map of_char (reverse [CHR 0xFF]) = [0xEF, 0xBF, 0xBD :: nat]
   \<and> length (reverse [CHR 0xFF]) \<noteq> length [CHR 0xFF]"
  by (simp add: reverse_eq runes_of.simps string_of_runes_def EncodeRune_def RuneError_def)

theorem C8_reverse_wellformed_witness:
  "ValidString [CHR 0xC3, CHR 0xA9, CHR ''a'', nl, CHR 0xE2, CHR 0x82, CHR 0xAC]
   \<and> length (reverse [CHR 0xC3, CHR 0xA9, CHR ''a'', nl, CHR 0xE2, CHR 0x82, CHR 0xAC]) = 7
   \<and> map length (Split (reverse [CHR 0xC3, CHR 0xA9, CHR ''a'', nl, CHR 0xE2, CHR 0x82, CHR 0xAC]) nl) = [3, 3]"
proof -
  have v: "ValidString [CHR 0xC3, CHR 0xA9, CHR ''a'', nl, CHR 0xE2, CHR 0x82, CHR 0xAC]"
    by (simp add: ValidString.simps nl_def second_ok_def accept_lo_def accept_hi_def cont_def)
  from C8_reverse_wellformed [OF v] v show ?thesis
    by (simp add: nl_def)
qed

subsection \<open>C9: the text formatter without a message\<close>

text \<open>
  C9: for every journal entry whose field mapping has no \<open>MESSAGE\<close> key the plain-text
  formatter returns zero bytes (no timestamp, no newline) and a nil error, whatever the
  other fields are.
\<close>

theorem C9_no_message_empty_output:
  "Fields entry ''MESSAGE'' = None \<Longrightarrow> FormatEntry ansic entry = ([], None)"
  by (simp add: FormatEntry_def)

theorem C9_no_message_empty_output_witness:
  "Fields \<lparr>Fields = [''_HOSTNAME'' \<mapsto> ''node1'', ''SYSLOG_IDENTIFIER'' \<mapsto> ''sshd'', ''_PID'' \<mapsto> ''42''],
           Cursor = ''c'', RealtimeTimestamp = 1500000000000000, MonotonicTimestamp = 7\<rparr> ''MESSAGE'' = None
   \<and> FormatEntry (\<lambda>t. ''Fri Jul 14 02:40:00 2017'')
        \<lparr>Fields = [''_HOSTNAME'' \<mapsto> ''node1'', ''SYSLOG_IDENTIFIER'' \<mapsto> ''sshd'', ''_PID'' \<mapsto> ''42''],
         Cursor = ''c'', RealtimeTimestamp = 1500000000000000, MonotonicTimestamp = 7\<rparr> = ([], None)"
proof -
  have h: "Fields \<lparr>Fields = [''_HOSTNAME'' \<mapsto> ''node1'', ''SYSLOG_IDENTIFIER'' \<mapsto> ''sshd'', ''_PID'' \<mapsto> ''42''],
           Cursor = ''c'', RealtimeTimestamp = 1500000000000000, MonotonicTimestamp = 7\<rparr> ''MESSAGE'' = None"
    by simp
  from C9_no_message_empty_output [OF h] h show ?thesis by blast
qed

subsection \<open>C10: the redirect needs a container id\<close>

text \<open>
  C10: \<open>redirectURL\<close> reads the last element of \<open>ContainerIDs\<close> without a check. With at
  least one container id it returns a URL and a nil error; with none the index is out of
  range and the function panics, so a non-empty list is a precondition.
\<close>

theorem C10_redirectURL_needs_container:
  "(ContainerIDs tid \<noteq> [] \<longrightarrow> (\<exists>url. redirectURL tid file = Inr (url, None)))
   \<and> (ContainerIDs tid = [] \<longrightarrow> redirectURL tid file = Inl IndexOutOfRange)"
  by (simp add: redirectURL_def Let_def)

theorem C10_redirectURL_needs_container_witness:
  "redirectURL \<lparr>AgentID = ''a1'', FrameworkID = ''f1'', ExecutorID = [], ContainerIDs = [''c1'', ''c2''], ID = ''t1''\<rparr> ''stdout''
     = Inr (''/system/v1/agent/a1/logs/v2/task/frameworks/f1/executors/t1/runs/c2/stdout'', None)
   \<and> redirectURL \<lparr>AgentID = ''a1'', FrameworkID = ''f1'', ExecutorID = [], ContainerIDs = [], ID = ''t1''\<rparr> ''stdout''
     = Inl IndexOutOfRange"
proof -
  have "redirectURL \<lparr>AgentID = ''a1'', FrameworkID = ''f1'', ExecutorID = [], ContainerIDs = [], ID = ''t1''\<rparr> ''stdout''
     = Inl IndexOutOfRange"
    using C10_redirectURL_needs_container
      [of "\<lparr>AgentID = ''a1'', FrameworkID = ''f1'', ExecutorID = [], ContainerIDs = [], ID = ''t1''\<rparr>" "''stdout''"]
    by simp
  moreover have "redirectURL \<lparr>AgentID = ''a1'', FrameworkID = ''f1'', ExecutorID = [], ContainerIDs = [''c1'', ''c2''], ID = ''t1''\<rparr> ''stdout''
     = Inr (''/system/v1/agent/a1/logs/v2/task/frameworks/f1/executors/t1/runs/c2/stdout'', None)"
    by (simp add: redirectURL_def prefix_const_def)
  ultimately show ?thesis by simp
qed

end
